theory Spec2Isabelle
  imports Main "HOL-Library.Char_ord" "HOL-Library.List_Lexorder" "HOL-Library.Product_Lexorder"
begin

section \<open>Orange Book formulation identity resolution\<close>

text \<open>
  A shallow embedding of \<^verbatim>\<open>ob.py\<close> (formulation keys and the registry of equivalence
  classes) and of \<^verbatim>\<open>match_ndc_ob.py\<close> (the cross-schema matcher).

  A Python \<^verbatim>\<open>str\<close> is a \<open>string\<close>; a \<open>char\<close> stands for a code point below 256.
  Strings are ordered as Python orders them: by code point, lexicographically, a proper
  prefix first. Python's \<^verbatim>\<open>int\<close> is \<open>int\<close>, the result of \<^verbatim>\<open>len\<close> is a \<open>nat\<close>.
  An exception is a value of type \<open>error\<close>; a function that may raise returns
  \<open>error + 'a\<close>, with \<open>Inl\<close> for the exception.
\<close>

subsection \<open>Rows and exceptions\<close>

text \<open>
  A \<^verbatim>\<open>csvplus.Row\<close> holds the dictionary \<open>header\<close> from column name to position
  and the list \<open>row\<close> of the values of one line. \<^verbatim>\<open>csvplus.Reader\<close> makes the
  dictionary from the header line, position by position, so that of a repeated name
  the last position stays (\<open>make_header\<close>), and makes one \<open>Row\<close> of it and each
  line (\<open>read_row\<close>). A dictionary is a list of pairs in the order of insertion;
  \<open>dict_set\<close> is \<^verbatim>\<open>d[k] = v\<close>.
\<close>

fun dict_set :: "string \<Rightarrow> 'v \<Rightarrow> (string \<times> 'v) list \<Rightarrow> (string \<times> 'v) list" where
  "dict_set k v [] = [(k, v)]"
| "dict_set k v ((k', v') # d) = (if k' = k then (k, v) # d else (k', v') # dict_set k v d)"

record Row =
  header :: "(string \<times> nat) list"
  row :: "string list"

definition make_header :: "string list \<Rightarrow> (string \<times> nat) list" where
  "make_header h = fold (\<lambda>i d. dict_set (h ! i) i d) [0..<length h] []"

definition read_row :: "string list \<Rightarrow> string list \<Rightarrow> Row" where
  "read_row h line = \<lparr>header = make_header h, row = line\<rparr>"

datatype FormulationTuple =
  FormulationTuple (ingredient: string) (form_route: string) (strength: string)

datatype ApplicationTuple =
  ApplicationTuple (appl_no: string) (product_no: string)

datatype error =
    KeyError string
  | IndexError
  | RuntimeError string nat Row
  | AssertionError_lengths Row "string list" "string list"
  | AssertionError_form FormulationTuple
  | AssertionError_app ApplicationTuple
  | AssertionError_neither
  | AssertionError_eq_id int
  | AttributeError
  | KeyError_eq_id int
  | ValueError
  | ZeroDivisionError

text \<open>
  \<^verbatim>\<open>row[key]\<close> for a column name: a name that the header lacks is a \<^verbatim>\<open>KeyError\<close>,
  a line that is too short for the position is an \<^verbatim>\<open>IndexError\<close>.
\<close>

definition getitem :: "Row \<Rightarrow> string \<Rightarrow> error + string" where
  "getitem r k =
     (case map_of (header r) k of
        None \<Rightarrow> Inl (KeyError k)
      | Some i \<Rightarrow> if i < length (row r) then Inr (row r ! i) else Inl IndexError)"

subsection \<open>String functions of Python used by the key construction\<close>

definition newline :: char where
  "newline = CHR 0x0A"

text \<open>The characters that \<^verbatim>\<open>\s\<close> matches, among the code points below 256.\<close>

definition is_space :: "char \<Rightarrow> bool" where
  "is_space c = (let n = (of_char c :: nat) in
     (9 \<le> n \<and> n \<le> 13) \<or> (28 \<le> n \<and> n \<le> 32) \<or> n = 133 \<or> n = 160)"

text \<open>\<^verbatim>\<open>re.sub("; ", ";", s)\<close>: every occurrence, left to right, without overlap.\<close>

fun sub_semi_space :: "string \<Rightarrow> string" where
  "sub_semi_space (c # d # cs) =
     (if c = CHR '';'' \<and> d = CHR '' '' then CHR '';'' # sub_semi_space cs
      else c # sub_semi_space (d # cs))"
| "sub_semi_space cs = cs"

text \<open>
  \<^verbatim>\<open>re.split(r";\s*", s)\<close>: the text is cut at every semicolon, and the white space
  that follows the semicolon goes with it.
\<close>

fun split_semi_from :: "string \<Rightarrow> bool \<Rightarrow> string \<Rightarrow> string list" where
  "split_semi_from cur skipping [] = [rev cur]"
| "split_semi_from cur skipping (c # cs) =
     (if c = CHR '';'' then rev cur # split_semi_from [] True cs
      else if skipping \<and> is_space c then split_semi_from cur True cs
      else split_semi_from (c # cur) False cs)"

definition split_semi :: "string \<Rightarrow> string list" where
  "split_semi s = split_semi_from [] False s"

text \<open>\<^verbatim>\<open>s.split(sep)\<close> for a separator of one character.\<close>

fun split_char :: "char \<Rightarrow> string \<Rightarrow> string list" where
  "split_char sep [] = [[]]"
| "split_char sep (c # cs) =
     (if c = sep then [] # split_char sep cs
      else (case split_char sep cs of [] \<Rightarrow> [[c]] | w # ws \<Rightarrow> (c # w) # ws))"

text \<open>\<^verbatim>\<open>sep.join(xs)\<close>.\<close>

fun join :: "string \<Rightarrow> string list \<Rightarrow> string" where
  "join sep [] = []"
| "join sep [x] = x"
| "join sep (x # y # ys) = x @ sep @ join sep (y # ys)"

text \<open>
  \<^verbatim>\<open>zip(*xss)\<close>: the i-th result collects the i-th element of every list, up to the
  length of the shortest list; no list gives no result.
\<close>

definition zip_star :: "'a list list \<Rightarrow> 'a list list" where
  "zip_star xss =
     (case xss of [] \<Rightarrow> []
      | ys # yss \<Rightarrow>
          map (\<lambda>i. map (\<lambda>xs. xs ! i) xss)
              [0..<fold min (map length yss) (length ys)])"

text \<open>\<^verbatim>\<open>range(0, n, step)\<close> for a positive step.\<close>

definition range_step :: "nat \<Rightarrow> nat \<Rightarrow> nat list" where
  "range_step n step = map (\<lambda>k. k * step) [0..<(n + step - 1) div step]"

text \<open>
  \<^verbatim>\<open>re.sub(r" \*\*Federal Register.*$", "", text)\<close>. The dot does not match a
  newline and \<^verbatim>\<open>$\<close> matches at the end of the text or before a newline that ends
  the text. So the leftmost occurrence of the literal whose remainder holds no newline
  other than a final one is removed with that remainder; the final newline stays.
\<close>

definition federal_register :: string where
  "federal_register = '' **Federal Register''"

fun sub_federal_register :: "string \<Rightarrow> string" where
  "sub_federal_register [] = []"
| "sub_federal_register (c # cs) =
     (let s = c # cs; n = length federal_register; tl_part = drop n s in
      if take n s = federal_register \<and> newline \<notin> set tl_part then []
      else if take n s = federal_register \<and> tl_part \<noteq> [] \<and> last tl_part = newline
              \<and> newline \<notin> set (butlast tl_part) then [newline]
      else c # sub_federal_register cs)"

text \<open>
  \<^verbatim>\<open>re.search(r"^(.*;.*?)\s*\((.*;.*)\)", text)\<close>.

  \<open>paren_tail\<close> matches \<^verbatim>\<open>\s*\((.*;.*)\)\<close> at the start of its argument and
  returns the second group: the white space is skipped (no shorter run can be followed
  by the parenthesis), and, both dots being greedy, the group ends at the last closing
  parenthesis of the line and must hold a semicolon.

  The first group starts the text. Its first dot is greedy, so the semicolon is the
  rightmost one on the first line from which the rest can match; its second dot is lazy,
  so the group ends at the first position after that semicolon where the rest matches.
\<close>

definition paren_tail :: "string \<Rightarrow> string option" where
  "paren_tail rest =
     (case dropWhile is_space rest of
        [] \<Rightarrow> None
      | c # body \<Rightarrow>
          if c \<noteq> CHR ''('' then None
          else
            (let line = takeWhile (\<lambda>c. c \<noteq> newline) body;
                 g2 = rev (tl (dropWhile (\<lambda>c. c \<noteq> CHR '')'') (rev line)))
             in if CHR '')'' \<in> set line \<and> CHR '';'' \<in> set g2 then Some g2 else None))"

definition paren_search :: "string \<Rightarrow> (string \<times> string) option" where
  "paren_search t =
     (let n = length (takeWhile (\<lambda>c. c \<noteq> newline) t);
          semis = rev (filter (\<lambda>p. t ! p = CHR '';'') [0..<n]);
          ends = concat (map (\<lambda>p. filter (\<lambda>q. paren_tail (drop q t) \<noteq> None) [Suc p..<Suc n]) semis)
      in case ends of
           [] \<Rightarrow> None
         | q # _ \<Rightarrow> (case paren_tail (drop q t) of
                       None \<Rightarrow> None
                     | Some g2 \<Rightarrow> Some (take q t, g2)))"

subsection \<open>Formulation and application keys\<close>

definition app_tuple :: "Row \<Rightarrow> error + ApplicationTuple" where
  "app_tuple r =
     (case getitem r ''appl_no'' of Inl e \<Rightarrow> Inl e | Inr a \<Rightarrow>
       (case getitem r ''product_no'' of Inl e \<Rightarrow> Inl e | Inr p \<Rightarrow>
          Inr (ApplicationTuple a p)))"

definition special_strength_text :: string where
  "special_strength_text =
     ''250.0MG;12.5MG;75.0MG;EQ 250MG BASE,N/A,N/A,N/A; N/A,12.5MG,75MG,50MG''"

definition parse_strengths :: "string \<Rightarrow> nat \<Rightarrow> Row \<Rightarrow> error + string list" where
  "parse_strengths text0 exp_len r =
     (let text = sub_federal_register text0 in
      if text = special_strength_text then Inr [''250MG'', ''12.5MG'', ''75MG'', ''50MG'']
      else
        (case paren_search text of
           Some (m1, m2) \<Rightarrow>
             Inr (map (\<lambda>(a, b). a @ '' ('' @ b @ '')'') (zip (split_semi m1) (split_semi m2)))
         | None \<Rightarrow>
             (let elts = split_semi text in
              if length elts = exp_len \<or> exp_len = 1 then Inr elts
              else
                (let relts = map (join '', '') (zip_star (map (split_char CHR '','') elts)) in
                 if length relts = exp_len then Inr relts
                 else if exp_len = 0 then Inl ZeroDivisionError
                 else if length elts mod exp_len = 0 then
                   (if length elts div exp_len = 0 then Inl ValueError
                    else Inr (map (\<lambda>i. join '', '' (take exp_len (drop i elts)))
                                  (range_step (length elts) (length elts div exp_len))))
                 else Inl (RuntimeError text exp_len r)))))"

text \<open>
  \<open>form_tuple\<close>: the single ingredient is repeated once for every strength, the
  lengths are compared, and the pairs are sorted (as pairs of strings) before they are
  taken apart again; taking apart an empty list of pairs is a \<^verbatim>\<open>ValueError\<close>.
\<close>

definition form_tuple :: "Row \<Rightarrow> error + FormulationTuple" where
  "form_tuple r =
     (case getitem r ''df;route'' of Inl e \<Rightarrow> Inl e | Inr fr \<Rightarrow>
     (case getitem r ''ingredient'' of Inl e \<Rightarrow> Inl e | Inr ing \<Rightarrow>
     (case getitem r ''strength'' of Inl e \<Rightarrow> Inl e | Inr st \<Rightarrow>
     (case parse_strengths st (length (split_semi ing)) r of Inl e \<Rightarrow> Inl e
      | Inr strengths \<Rightarrow>
        (let form_route = sub_semi_space fr;
             ingredients =
               (if length (split_semi ing) = 1
                then concat (replicate (length strengths) (split_semi ing))
                else split_semi ing)
         in
         if length ingredients \<noteq> length strengths
         then Inl (AssertionError_lengths r ingredients strengths)
         else
           (let pairs = sort (zip ingredients strengths) in
            if pairs = [] then Inl ValueError
            else Inr (FormulationTuple (join ''; '' (map fst pairs)) form_route
                                       (join ''; '' (map snd pairs)))))))))"

text \<open>
  A named tuple is ordered as the tuple of its fields; \<^verbatim>\<open>sorted\<close> in \<open>to_dict\<close>
  relies on it.
\<close>

instantiation FormulationTuple :: linorder
begin

definition less_eq_FormulationTuple :: "FormulationTuple \<Rightarrow> FormulationTuple \<Rightarrow> bool" where
  "less_eq_FormulationTuple x y \<longleftrightarrow>
     (ingredient x, form_route x, strength x) \<le> (ingredient y, form_route y, strength y)"

definition less_FormulationTuple :: "FormulationTuple \<Rightarrow> FormulationTuple \<Rightarrow> bool" where
  "less_FormulationTuple x y \<longleftrightarrow>
     (ingredient x, form_route x, strength x) < (ingredient y, form_route y, strength y)"

instance
  by standard
     (auto simp: less_eq_FormulationTuple_def less_FormulationTuple_def
           intro: FormulationTuple.expand)

end

instantiation ApplicationTuple :: linorder
begin

definition less_eq_ApplicationTuple :: "ApplicationTuple \<Rightarrow> ApplicationTuple \<Rightarrow> bool" where
  "less_eq_ApplicationTuple x y \<longleftrightarrow> (appl_no x, product_no x) \<le> (appl_no y, product_no y)"

definition less_ApplicationTuple :: "ApplicationTuple \<Rightarrow> ApplicationTuple \<Rightarrow> bool" where
  "less_ApplicationTuple x y \<longleftrightarrow> (appl_no x, product_no x) < (appl_no y, product_no y)"

instance
  by standard
     (auto simp: less_eq_ApplicationTuple_def less_ApplicationTuple_def
           intro: ApplicationTuple.expand)

end

subsection \<open>The registry of equivalence classes\<close>

text \<open>
  An \<^verbatim>\<open>EquivalenceClass\<close> object has two sets and an id; the id is set at the end of
  \<^verbatim>\<open>__init__\<close>, so an object under construction has none. Objects live in a store
  (\<open>heap\<close>), a reference is an index into it, and a new object takes the next index;
  an object that no dictionary refers to any more stays in the store. A reference that
  the program holds is one that was handed out, so it is below the length of the store.

  The class attributes are the registry: \<open>eq_classes\<close> from id to object (a Python
  dictionary keeps the order of insertion, so it is a list of pairs with distinct
  keys), \<open>next_eq_id\<close>, and the two dictionaries from keys to objects.
\<close>

record EquivalenceClass =
  form_tuples :: "FormulationTuple set"
  app_tuples :: "ApplicationTuple set"
  eq_id :: "int option"

record registry =
  heap :: "EquivalenceClass list"
  eq_classes :: "(int \<times> nat) list"
  next_eq_id :: int
  form_tuple_classes :: "FormulationTuple \<rightharpoonup> nat"
  app_tuple_classes :: "ApplicationTuple \<rightharpoonup> nat"

definition empty_registry :: registry where
  "empty_registry =
     \<lparr>heap = [], eq_classes = [], next_eq_id = 0,
      form_tuple_classes = Map.empty, app_tuple_classes = Map.empty\<rparr>"

definition obj :: "registry \<Rightarrow> nat \<Rightarrow> EquivalenceClass" where
  "obj st p = heap st ! p"

definition set_obj :: "nat \<Rightarrow> EquivalenceClass \<Rightarrow> registry \<Rightarrow> registry" where
  "set_obj p c st = st\<lparr>heap := (heap st)[p := c]\<rparr>"

definition add_form_tuple :: "nat \<Rightarrow> FormulationTuple \<Rightarrow> registry \<Rightarrow> error + registry" where
  "add_form_tuple self ft st =
     (if ft \<in> dom (form_tuple_classes st) then Inl (AssertionError_form ft)
      else
        (let st1 = st\<lparr>form_tuple_classes := (form_tuple_classes st)(ft \<mapsto> self)\<rparr>
         in Inr (set_obj self ((obj st1 self)\<lparr>form_tuples := insert ft (form_tuples (obj st1 self))\<rparr>) st1)))"

definition add_app_tuple :: "nat \<Rightarrow> ApplicationTuple \<Rightarrow> registry \<Rightarrow> error + registry" where
  "add_app_tuple self at st =
     (if at \<in> dom (app_tuple_classes st) then Inl (AssertionError_app at)
      else
        (let st1 = st\<lparr>app_tuple_classes := (app_tuple_classes st)(at \<mapsto> self)\<rparr>
         in Inr (set_obj self ((obj st1 self)\<lparr>app_tuples := insert at (app_tuples (obj st1 self))\<rparr>) st1)))"

fun add_form_tuples :: "nat \<Rightarrow> FormulationTuple list \<Rightarrow> registry \<Rightarrow> error + registry" where
  "add_form_tuples self [] st = Inr st"
| "add_form_tuples self (ft # fts) st =
     (case add_form_tuple self ft st of Inl e \<Rightarrow> Inl e
      | Inr st1 \<Rightarrow> add_form_tuples self fts st1)"

fun add_app_tuples :: "nat \<Rightarrow> ApplicationTuple list \<Rightarrow> registry \<Rightarrow> error + registry" where
  "add_app_tuples self [] st = Inr st"
| "add_app_tuples self (at # ats) st =
     (case add_app_tuple self at st of Inl e \<Rightarrow> Inl e
      | Inr st1 \<Rightarrow> add_app_tuples self ats st1)"

text \<open>
  \<^verbatim>\<open>__init__\<close>: the new object, the keys one by one, then the id (the next one, or
  the one given) and the entry in \<open>eq_classes\<close>. The result is the registry and the
  reference of the new object.
\<close>

definition EquivalenceClass_init ::
  "FormulationTuple list \<Rightarrow> ApplicationTuple list \<Rightarrow> int option \<Rightarrow> registry
     \<Rightarrow> error + registry \<times> nat" where
  "EquivalenceClass_init fts ats eq_id_arg st =
     (let self = length (heap st);
          st0 = st\<lparr>heap := heap st @ [\<lparr>form_tuples = {}, app_tuples = {}, eq_id = None\<rparr>]\<rparr>
      in
      case add_form_tuples self fts st0 of Inl e \<Rightarrow> Inl e | Inr st1 \<Rightarrow>
     (case add_app_tuples self ats st1 of Inl e \<Rightarrow> Inl e | Inr st2 \<Rightarrow>
        (let i = (case eq_id_arg of None \<Rightarrow> next_eq_id st2 | Some j \<Rightarrow> j);
             st3 = (case eq_id_arg of
                      None \<Rightarrow> st2\<lparr>next_eq_id := next_eq_id st2 + 1\<rparr>
                    | Some j \<Rightarrow> st2\<lparr>next_eq_id := max (next_eq_id st2) (j + 1)\<rparr>)
         in
         if i \<in> fst ` set (eq_classes st3) then Inl (AssertionError_eq_id i)
         else
           (let st4 = set_obj self ((obj st3 self)\<lparr>eq_id := Some i\<rparr>) st3
            in Inr (st4\<lparr>eq_classes := eq_classes st4 @ [(i, self)]\<rparr>, self)))))"

definition append_ec ::
  "nat \<Rightarrow> FormulationTuple \<Rightarrow> ApplicationTuple \<Rightarrow> registry \<Rightarrow> error + registry" where
  "append_ec self ft at st =
     (if at \<in> app_tuples (obj st self) then
        (if ft \<in> form_tuples (obj st self) then Inr st
         else add_form_tuple self ft st)
      else if ft \<in> form_tuples (obj st self) then add_app_tuple self at st
      else Inl AssertionError_neither)"

text \<open>
  \<open>merge\<close>: each statement reads the store as the statement before left it.
  \<^verbatim>\<open>del\<close> of an id that \<open>eq_classes\<close> lacks is a \<^verbatim>\<open>KeyError\<close>.
\<close>

definition merge :: "nat \<Rightarrow> nat \<Rightarrow> registry \<Rightarrow> error + registry" where
  "merge self other st =
     (let st1 = set_obj self ((obj st self)\<lparr>form_tuples :=
                   form_tuples (obj st self) \<union> form_tuples (obj st other)\<rparr>) st;
          st2 = st1\<lparr>form_tuple_classes :=
                   (\<lambda>ft. if ft \<in> form_tuples (obj st1 other) then Some self
                         else form_tuple_classes st1 ft)\<rparr>;
          st3 = set_obj self ((obj st2 self)\<lparr>app_tuples :=
                   app_tuples (obj st2 self) \<union> app_tuples (obj st2 other)\<rparr>) st2;
          st4 = st3\<lparr>app_tuple_classes :=
                   (\<lambda>at. if at \<in> app_tuples (obj st3 other) then Some self
                         else app_tuple_classes st3 at)\<rparr>
      in
      case eq_id (obj st4 other) of
        None \<Rightarrow> Inl AttributeError
      | Some i \<Rightarrow>
          if i \<in> fst ` set (eq_classes st4)
          then Inr (st4\<lparr>eq_classes := filter (\<lambda>(k, p). k \<noteq> i) (eq_classes st4)\<rparr>)
          else Inl (KeyError_eq_id i))"

text \<open>\<open>get\<close> by formulation tuple, by application tuple and by id.\<close>

definition get_form :: "registry \<Rightarrow> FormulationTuple \<Rightarrow> nat option" where
  "get_form st ft = form_tuple_classes st ft"

definition get_app :: "registry \<Rightarrow> ApplicationTuple \<Rightarrow> nat option" where
  "get_app st at = app_tuple_classes st at"

definition get_id :: "registry \<Rightarrow> int \<Rightarrow> error + nat" where
  "get_id st i = (case map_of (eq_classes st) i of None \<Rightarrow> Inl (KeyError_eq_id i) | Some p \<Rightarrow> Inr p)"

definition all_classes :: "registry \<Rightarrow> nat list" where
  "all_classes st = map snd (eq_classes st)"

text \<open>
  \<open>add\<close>: the keys of the row, then the five cases on the classes that own them.
  \<open>add_keys\<close> is the part of \<open>add\<close> that follows the construction of the keys.
\<close>

definition add_keys ::
  "FormulationTuple \<Rightarrow> ApplicationTuple \<Rightarrow> registry \<Rightarrow> error + registry \<times> nat" where
  "add_keys ft at st =
     (case (get_form st ft, get_app st at) of
        (None, None) \<Rightarrow> EquivalenceClass_init [ft] [at] None st
      | (Some ftc, None) \<Rightarrow>
          (case append_ec ftc ft at st of Inl e \<Rightarrow> Inl e | Inr st1 \<Rightarrow> Inr (st1, ftc))
      | (None, Some atc) \<Rightarrow>
          (case append_ec atc ft at st of Inl e \<Rightarrow> Inl e | Inr st1 \<Rightarrow> Inr (st1, atc))
      | (Some ftc, Some atc) \<Rightarrow>
          if atc = ftc then
            (case append_ec ftc ft at st of Inl e \<Rightarrow> Inl e | Inr st1 \<Rightarrow> Inr (st1, ftc))
          else
            (case merge ftc atc st of Inl e \<Rightarrow> Inl e
             | Inr st1 \<Rightarrow>
                 (case append_ec ftc ft at st1 of Inl e \<Rightarrow> Inl e
                  | Inr st2 \<Rightarrow> Inr (st2, ftc))))"

definition add :: "Row \<Rightarrow> registry \<Rightarrow> error + registry \<times> nat" where
  "add r st =
     (case form_tuple r of Inl e \<Rightarrow> Inl e | Inr ft \<Rightarrow>
       (case app_tuple r of Inl e \<Rightarrow> Inl e | Inr at \<Rightarrow> add_keys ft at st))"

text \<open>The loop of \<^verbatim>\<open>summarize\<close> over the product rows.\<close>

fun add_all :: "Row list \<Rightarrow> registry \<Rightarrow> error + registry" where
  "add_all [] st = Inr st"
| "add_all (r # rs) st =
     (case add r st of Inl e \<Rightarrow> Inl e | Inr (st1, c) \<Rightarrow> add_all rs st1)"

subsection \<open>Writing the classes out and reading them back\<close>

text \<open>
  The dictionary that \<open>to_dict\<close> returns; \<^verbatim>\<open>sorted\<close> of a set is the sorted list of
  its elements. The encoding of the records as JSON text is not modelled: a record is
  read back as it was written.
\<close>

record class_dict =
  d_eq_id :: int
  d_form_tuples :: "FormulationTuple list"
  d_app_tuples :: "ApplicationTuple list"

definition to_dict :: "registry \<Rightarrow> nat \<Rightarrow> error + class_dict" where
  "to_dict st self =
     (case eq_id (obj st self) of
        None \<Rightarrow> Inl AttributeError
      | Some i \<Rightarrow>
          Inr \<lparr>d_eq_id = i,
               d_form_tuples = sorted_list_of_set (form_tuples (obj st self)),
               d_app_tuples = sorted_list_of_set (app_tuples (obj st self))\<rparr>)"

text \<open>
  What \<^verbatim>\<open>summarize\<close> writes: \<open>to_dict\<close> of every class of \<open>all_classes\<close>, in
  that order.
\<close>

fun to_dicts :: "registry \<Rightarrow> nat list \<Rightarrow> error + class_dict list" where
  "to_dicts st [] = Inr []"
| "to_dicts st (p # ps) =
     (case to_dict st p of Inl e \<Rightarrow> Inl e
      | Inr d \<Rightarrow> (case to_dicts st ps of Inl e \<Rightarrow> Inl e | Inr ds \<Rightarrow> Inr (d # ds)))"

definition dump_summary :: "registry \<Rightarrow> error + class_dict list" where
  "dump_summary st = to_dicts st (all_classes st)"

text \<open>
  What \<^verbatim>\<open>load_summary\<close> does with the records read, when \<open>eq_classes\<close> is empty:
  one object for each, with the id of the record.
\<close>

fun load_classes :: "class_dict list \<Rightarrow> registry \<Rightarrow> error + registry" where
  "load_classes [] st = Inr st"
| "load_classes (d # ds) st =
     (case EquivalenceClass_init (d_form_tuples d) (d_app_tuples d) (Some (d_eq_id d)) st of
        Inl e \<Rightarrow> Inl e
      | Inr (st1, c) \<Rightarrow> load_classes ds st1)"

definition load_summary :: "class_dict list \<Rightarrow> registry \<Rightarrow> error + registry" where
  "load_summary ds st = (if length (eq_classes st) = 0 then load_classes ds st else Inr st)"
subsection \<open>Invariants of the registry\<close>

text \<open>
  The live classes are the objects that \<open>eq_classes\<close> refers to. \<open>table_ok\<close>: ids and
  objects of \<open>eq_classes\<close> are pairwise distinct, every object is in the store and
  carries the id it is filed under, and every id is below \<open>next_eq_id\<close>.
  \<open>form_ok\<close> and \<open>app_ok\<close>: a key dictionary maps a key to an object exactly when
  that object is live and holds the key; so no entry dangles and a key is in at most one
  live class.
\<close>

definition live :: "registry \<Rightarrow> nat set" where
  "live st = snd ` set (eq_classes st)"

definition table_ok :: "registry \<Rightarrow> bool" where
  "table_ok st \<longleftrightarrow>
     distinct (map fst (eq_classes st)) \<and> distinct (map snd (eq_classes st)) \<and>
     (\<forall>(i, p) \<in> set (eq_classes st).
        p < length (heap st) \<and> eq_id (obj st p) = Some i \<and> i < next_eq_id st)"

definition form_ok :: "registry \<Rightarrow> bool" where
  "form_ok st \<longleftrightarrow>
     (\<forall>ft p. form_tuple_classes st ft = Some p \<longleftrightarrow> p \<in> live st \<and> ft \<in> form_tuples (obj st p))"

definition app_ok :: "registry \<Rightarrow> bool" where
  "app_ok st \<longleftrightarrow>
     (\<forall>at p. app_tuple_classes st at = Some p \<longleftrightarrow> p \<in> live st \<and> at \<in> app_tuples (obj st p))"

definition finite_ok :: "registry \<Rightarrow> bool" where
  "finite_ok st \<longleftrightarrow>
     (\<forall>p \<in> live st. finite (form_tuples (obj st p)) \<and> finite (app_tuples (obj st p)))"

definition registry_inv :: "registry \<Rightarrow> bool" where
  "registry_inv st \<longleftrightarrow> table_ok st \<and> form_ok st \<and> app_ok st \<and> finite_ok st"

text \<open>
  A key is a formulation tuple or an application tuple. Two keys are co-members when a
  live class holds both.
\<close>

type_synonym key = "FormulationTuple + ApplicationTuple"

definition keys_of :: "EquivalenceClass \<Rightarrow> key set" where
  "keys_of c = Inl ` form_tuples c \<union> Inr ` app_tuples c"

definition comember :: "registry \<Rightarrow> (key \<times> key) set" where
  "comember st = {(k1, k2). \<exists>p \<in> live st. k1 \<in> keys_of (obj st p) \<and> k2 \<in> keys_of (obj st p)}"

text \<open>
  Ids over the whole store, that is over every class object ever made, absorbed ones
  included: \<open>ids_unique\<close> says that each has an id below \<open>next_eq_id\<close> and that no
  two share one; \<open>ids_kept\<close> says that every object of the first registry is in the
  second with the same id, and that \<open>next_eq_id\<close> has not gone down.
\<close>

definition ids_unique :: "registry \<Rightarrow> bool" where
  "ids_unique st \<longleftrightarrow>
     (\<forall>p < length (heap st). \<exists>i. eq_id (obj st p) = Some i \<and> i < next_eq_id st) \<and>
     (\<forall>p < length (heap st). \<forall>q < length (heap st). eq_id (obj st p) = eq_id (obj st q) \<longrightarrow> p = q)"

definition ids_kept :: "registry \<Rightarrow> registry \<Rightarrow> bool" where
  "ids_kept st st' \<longleftrightarrow>
     length (heap st) \<le> length (heap st') \<and> next_eq_id st \<le> next_eq_id st' \<and>
     (\<forall>p < length (heap st). eq_id (obj st' p) = eq_id (obj st p))"

text \<open>
  What \<open>add_keys\<close> establishes: the two keys of the row, with the keys that were
  co-members of either, become one class.
\<close>

definition neighbours :: "FormulationTuple \<Rightarrow> ApplicationTuple \<Rightarrow> registry \<Rightarrow> key set" where
  "neighbours ft at st = {Inl ft, Inr at} \<union> comember st `` {Inl ft} \<union> comember st `` {Inr at}"

definition add_post :: "FormulationTuple \<Rightarrow> ApplicationTuple \<Rightarrow> registry \<Rightarrow> registry \<Rightarrow> nat \<Rightarrow> bool" where
  "add_post ft at st st' c \<longleftrightarrow>
     registry_inv st' \<and> form_tuple_classes st' ft = Some c \<and> app_tuple_classes st' at = Some c \<and>
     comember st' = comember st \<union> neighbours ft at st \<times> neighbours ft at st \<and>
     ids_kept st st' \<and> (ids_unique st \<longrightarrow> ids_unique st')"

text \<open>The relation "two keys occur on the same record", for a set of key pairs.\<close>

definition cooccur :: "(FormulationTuple \<times> ApplicationTuple) set \<Rightarrow> (key \<times> key) set" where
  "cooccur R = {(k1, k2). \<exists>(f, a) \<in> R. k1 \<in> {Inl f, Inr a} \<and> k2 \<in> {Inl f, Inr a}}"

definition row_keys :: "Row list \<Rightarrow> (FormulationTuple \<times> ApplicationTuple) set" where
  "row_keys rs = {(f, a). \<exists>r \<in> set rs. form_tuple r = Inr f \<and> app_tuple r = Inr a}"

text \<open>The classes of a registry as they are filed: id, formulation keys, application keys.\<close>

definition class_table ::
  "registry \<Rightarrow> (int \<times> FormulationTuple set \<times> ApplicationTuple set) list" where
  "class_table st =
     map (\<lambda>(i, p). (i, form_tuples (obj st p), app_tuples (obj st p))) (eq_classes st)"

subsection \<open>Sample rows and registries\<close>

text \<open>The columns of the sample rows, as a header line.\<close>

definition products_header :: "string list" where
  "products_header = [''ingredient'', ''df;route'', ''strength'', ''appl_no'', ''product_no'']"

definition ex_row1 :: Row where
  "ex_row1 = read_row products_header
     [''ASPIRIN'', ''TABLET; ORAL'', ''325MG'', ''N020001'', ''001'']"

definition ex_row2 :: Row where
  "ex_row2 = read_row products_header
     [''ASPIRIN'', ''TABLET;ORAL'', ''325 MG'', ''A075002'', ''001'']"

definition ex_row3 :: Row where
  "ex_row3 = read_row products_header
     [''ASPIRIN'', ''TABLET;ORAL'', ''325MG'', ''A075002'', ''001'']"

definition ex_f1 :: FormulationTuple where
  "ex_f1 = FormulationTuple ''ASPIRIN'' ''TABLET;ORAL'' ''325MG''"

definition ex_f2 :: FormulationTuple where
  "ex_f2 = FormulationTuple ''ASPIRIN'' ''TABLET;ORAL'' ''325 MG''"

definition ex_a1 :: ApplicationTuple where
  "ex_a1 = ApplicationTuple ''N020001'' ''001''"

definition ex_a2 :: ApplicationTuple where
  "ex_a2 = ApplicationTuple ''A075002'' ''001''"

definition ex_f3 :: FormulationTuple where
  "ex_f3 = FormulationTuple ''CAFFEINE'' ''TABLET;ORAL'' ''200MG''"

definition ex_a3 :: ApplicationTuple where
  "ex_a3 = ApplicationTuple ''N020003'' ''001''"

text \<open>
  The registry after \<open>ex_row1\<close> and \<open>ex_row2\<close>; after \<open>ex_row3\<close> has merged the
  two classes; and after a class has then been constructed with the id 1.
\<close>

definition two_class_registry :: registry where
  "two_class_registry =
     \<lparr>heap = [\<lparr>form_tuples = {ex_f1}, app_tuples = {ex_a1}, eq_id = Some 0\<rparr>,
              \<lparr>form_tuples = {ex_f2}, app_tuples = {ex_a2}, eq_id = Some 1\<rparr>],
      eq_classes = [(0, 0), (1, 1)], next_eq_id = 2,
      form_tuple_classes = [ex_f1 \<mapsto> 0, ex_f2 \<mapsto> 1],
      app_tuple_classes = [ex_a1 \<mapsto> 0, ex_a2 \<mapsto> 1]\<rparr>"

definition merged_registry :: registry where
  "merged_registry =
     \<lparr>heap = [\<lparr>form_tuples = {ex_f1, ex_f2}, app_tuples = {ex_a1, ex_a2}, eq_id = Some 0\<rparr>,
              \<lparr>form_tuples = {ex_f2}, app_tuples = {ex_a2}, eq_id = Some 1\<rparr>],
      eq_classes = [(0, 0)], next_eq_id = 2,
      form_tuple_classes = [ex_f1 \<mapsto> 0, ex_f2 \<mapsto> 0],
      app_tuple_classes = [ex_a1 \<mapsto> 0, ex_a2 \<mapsto> 0]\<rparr>"

definition reused_registry :: registry where
  "reused_registry =
     \<lparr>heap = [\<lparr>form_tuples = {ex_f1, ex_f2}, app_tuples = {ex_a1, ex_a2}, eq_id = Some 0\<rparr>,
              \<lparr>form_tuples = {ex_f2}, app_tuples = {ex_a2}, eq_id = Some 1\<rparr>,
              \<lparr>form_tuples = {ex_f3}, app_tuples = {ex_a3}, eq_id = Some 1\<rparr>],
      eq_classes = [(0, 0), (1, 2)], next_eq_id = 2,
      form_tuple_classes = [ex_f1 \<mapsto> 0, ex_f2 \<mapsto> 0, ex_f3 \<mapsto> 2],
      app_tuple_classes = [ex_a1 \<mapsto> 0, ex_a2 \<mapsto> 0, ex_a3 \<mapsto> 2]\<rparr>"

text \<open>
  Rows for the key construction: one ingredient with two strengths; two ingredients with
  three strengths; three ingredients with strengths in the parenthesised form that give
  two; two ingredients with two strengths.
\<close>

definition ex_row_single :: Row where
  "ex_row_single = read_row products_header
     [''ESTRADIOL'', ''TABLET; ORAL-28'', ''2MG;1MG'', ''N020004'', ''001'']"

definition ex_row_single2 :: Row where
  "ex_row_single2 = read_row products_header
     [''NORETHINDRONE'', ''TABLET;ORAL-21'', ''0.5MG;1MG;0.75MG'', ''N020005'', ''002'']"

definition ex_row_bad :: Row where
  "ex_row_bad = read_row products_header
     [''ASPIRIN; CAFFEINE'', ''TABLET;ORAL'', ''325MG;40MG;50MG'', ''N020006'', ''001'']"

definition ex_row_paren :: Row where
  "ex_row_paren = read_row products_header
     [''ASPIRIN; BUTALBITAL; CAFFEINE'', ''TABLET;ORAL'', ''325MG;50MG (325MG/5ML;50MG/5ML)'', ''N020007'', ''001'']"

definition ex_row_two :: Row where
  "ex_row_two = read_row products_header
     [''CAFFEINE; ASPIRIN'', ''TABLET;ORAL'', ''40MG;325MG'', ''N020008'', ''001'']"

subsection \<open>The matcher: form and route\<close>

text \<open>The characters that \<^verbatim>\<open>\w\<close> matches, among the code points below 256.\<close>

definition is_word_char :: "char \<Rightarrow> bool" where
  "is_word_char c = (let n = (of_char c :: nat) in
     (48 \<le> n \<and> n \<le> 57) \<or> (65 \<le> n \<and> n \<le> 90) \<or> n = 95 \<or> (97 \<le> n \<and> n \<le> 122) \<or>
     n = 170 \<or> n = 178 \<or> n = 179 \<or> n = 181 \<or> n = 185 \<or> n = 186 \<or>
     (188 \<le> n \<and> n \<le> 190) \<or> (192 \<le> n \<and> n \<le> 214) \<or> (216 \<le> n \<and> n \<le> 246) \<or>
     (248 \<le> n \<and> n \<le> 255))"

text \<open>\<^verbatim>\<open>re.findall(r"\w+", text)\<close>: the maximal runs of word characters, in order.\<close>

fun findall_words_from :: "string \<Rightarrow> string \<Rightarrow> string list" where
  "findall_words_from cur [] = (if cur = [] then [] else [rev cur])"
| "findall_words_from cur (c # cs) =
     (if is_word_char c then findall_words_from (c # cur) cs
      else if cur = [] then findall_words_from [] cs
      else rev cur # findall_words_from [] cs)"

definition findall_words :: "string \<Rightarrow> string list" where
  "findall_words text = findall_words_from [] text"

definition form_route_map :: "(string \<times> string) list" where
  "form_route_map =
     [(''IV'', ''INJECTION''),
      (''INTRAVENOUS'', ''INJECTION''),
      (''INJECTABLE'', ''INJECTION''),
      (''SC'', ''SUBCUTANEOUS''),
      (''PELLETS'', ''PELLET''),
      (''INHALANT'', ''INHALATION''),
      (''CAPSULE'', ''TABLET''),
      (''FILM'', ''PATCH''),
      (''LIQUID'', ''SOLUTION'')]"

definition form_route_words :: "string \<Rightarrow> string set" where
  "form_route_words text =
     set (map (\<lambda>x. case map_of form_route_map x of None \<Rightarrow> x | Some y \<Rightarrow> y)
              (findall_words text))"

text \<open>\<^verbatim>\<open>s.split(sep, 1)\<close>: cut at the first separator only.\<close>

definition split1 :: "char \<Rightarrow> string \<Rightarrow> string list" where
  "split1 sep s =
     (case dropWhile (\<lambda>c. c \<noteq> sep) s of
        [] \<Rightarrow> [s]
      | _ # rest \<Rightarrow> [takeWhile (\<lambda>c. c \<noteq> sep) s, rest])"

text \<open>
  \<open>equivalent_form\<close>. Each side is cut at its first semicolon into form and route; a
  side without a semicolon gives one part only, and taking it apart into two is a
  \<^verbatim>\<open>ValueError\<close>.
\<close>

definition equivalent_form :: "string \<Rightarrow> string \<Rightarrow> error + bool" where
  "equivalent_form ob_fr ndc_fr =
     (case map form_route_words (split1 CHR '';'' ob_fr) of
        [ob_form, ob_route] \<Rightarrow>
          (case map form_route_words (split1 CHR '';'' ndc_fr) of
             [ndc_form, ndc_route] \<Rightarrow>
               Inr (if ''INJECTION'' \<in> ob_route \<and> ''INJECTION'' \<in> ndc_route then True
                    else if ''INJECTION'' \<in> ob_route \<and> ''INJECTION'' \<in> ndc_form then True
                    else if ''INHALATION'' \<in> ob_route \<and> ''INHALATION'' \<in> ndc_form then True
                    else if ob_route \<inter> ndc_route = {} then False
                    else if ob_form \<inter> ndc_form = {} then False
                    else True)
           | _ \<Rightarrow> Inl ValueError)
      | _ \<Rightarrow> Inl ValueError)"

subsection \<open>The matcher: ingredients\<close>

text \<open>
  A dictionary from ingredient to strength, in the order of insertion. \<open>dict_of\<close> is
  \<^verbatim>\<open>dict(pairs)\<close>, \<open>dict_pop\<close> is \<^verbatim>\<open>d.pop(k)\<close>.
\<close>

definition dict_of :: "(string \<times> 'v) list \<Rightarrow> (string \<times> 'v) list" where
  "dict_of pairs = fold (\<lambda>(k, v) d. dict_set k v d) pairs []"

definition dict_pop :: "string \<Rightarrow> (string \<times> 'v) list \<Rightarrow> error + 'v \<times> (string \<times> 'v) list" where
  "dict_pop k d =
     (case map_of d k of
        None \<Rightarrow> Inl (KeyError k)
      | Some v \<Rightarrow> Inr (v, filter (\<lambda>(k', v'). k' \<noteq> k) d))"

text \<open>
  \<open>match_ingredient\<close>: the loop over \<^verbatim>\<open>range(len(words))\<close> keeps, at index \<open>i\<close>, the
  candidates that have a word at \<open>i\<close> equal to the word of the query.
\<close>

fun match_loop :: "string list \<Rightarrow> nat list \<Rightarrow> string list list \<Rightarrow> string option" where
  "match_loop words [] matches = None"
| "match_loop words (i # is) matches =
     (let matches1 = filter (\<lambda>m. length m > i \<and> m ! i = words ! i) matches in
      if length matches1 = 1 then Some (join '' '' (hd matches1))
      else if length matches1 = 0 then None
      else match_loop words is matches1)"

definition match_ingredient :: "string \<Rightarrow> (string \<times> 'v) list \<Rightarrow> string option" where
  "match_ingredient ing ing_dict =
     (let words = split_char CHR '' '' ing;
          matches = map (\<lambda>k. split_char CHR '' '' k) (map fst ing_dict)
      in match_loop words [0..<length words] matches)"

text \<open>
  \<open>equivalent_composition\<close>. The comparison of strengths, \<open>equivalent_strength\<close>,
  computes with floating-point numbers and is a parameter here (it may raise).
  \<open>special\<close> says that the case of tavaborole applies; the entry is popped in either
  case.
\<close>

fun composition_loop ::
  "(string \<Rightarrow> string \<Rightarrow> string \<Rightarrow> error + bool) \<Rightarrow> (string \<times> string) list
     \<Rightarrow> (string \<times> string \<times> string) list \<Rightarrow> error + bool" where
  "composition_loop eqs ob_data [] = Inr (length ob_data = 0)"
| "composition_loop eqs ob_data ((ing, ndc_strength, ndc_unit) # rest) =
     (case match_ingredient ing ob_data of
        None \<Rightarrow> Inr False
      | Some match_ing \<Rightarrow>
          (case (if match_ing = ''TAVABOROLE''
                 then (case map_of ob_data match_ing of
                         None \<Rightarrow> Inl (KeyError match_ing)
                       | Some v \<Rightarrow> Inr (v = ''5%'' \<and> ndc_strength = ''43.5''))
                 else Inr False) of
             Inl e \<Rightarrow> Inl e
           | Inr special \<Rightarrow>
               (case dict_pop match_ing ob_data of
                  Inl e \<Rightarrow> Inl e
                | Inr (v, ob_data1) \<Rightarrow>
                    if special then composition_loop eqs ob_data1 rest
                    else
                      (case eqs v ndc_strength ndc_unit of
                         Inl e \<Rightarrow> Inl e
                       | Inr b \<Rightarrow>
                           if \<not> b then Inr False else composition_loop eqs ob_data1 rest))))"

definition equivalent_composition ::
  "(string \<Rightarrow> string \<Rightarrow> string \<Rightarrow> error + bool) \<Rightarrow> (string \<times> string) list
     \<Rightarrow> (string \<times> string \<times> string) list \<Rightarrow> error + bool" where
  "equivalent_composition eqs ob_comps ndc_comps = composition_loop eqs (dict_of ob_comps) ndc_comps"

text \<open>
  The matching of one ingredient as the specification words it: the candidates are
  narrowed by agreement on the first word, then on the first two words, and so on; one
  candidate left is the match, none left is no match, and so is more than one left when
  the words of the query are used up.
\<close>

definition agree :: "nat \<Rightarrow> string list \<Rightarrow> string list \<Rightarrow> bool" where
  "agree n ws m \<longleftrightarrow> n \<le> length m \<and> take n m = take n ws"

fun prefix_match :: "string list \<Rightarrow> nat list \<Rightarrow> string list \<Rightarrow> string option" where
  "prefix_match ws [] keys = None"
| "prefix_match ws (n # ns) keys =
     (case filter (\<lambda>k. agree n ws (split_char CHR '' '' k)) keys of
        [] \<Rightarrow> None
      | [k] \<Rightarrow> Some k
      | _ \<Rightarrow> prefix_match ws ns keys)"

definition spec_match :: "string \<Rightarrow> string list \<Rightarrow> string option" where
  "spec_match ing keys =
     prefix_match (split_char CHR '' '' ing) [1..<Suc (length (split_char CHR '' '' ing))] keys"

text \<open>
  Sample compositions: the buprenorphine and naloxone film of the tests of the source,
  and a pool in which the query \<^verbatim>\<open>A\<close> is ambiguous.
\<close>

definition ex_ob_comps :: "(string \<times> string) list" where
  "ex_ob_comps = [(''BUPRENORPHINE HYDROCHLORIDE'', ''EQ 6.3MG BASE''),
                  (''NALOXONE HYDROCHLORIDE'', ''EQ 1MG BASE'')]"

definition ex_ndc_comps :: "(string \<times> string \<times> string) list" where
  "ex_ndc_comps = [(''BUPRENORPHINE HYDROCHLORIDE'', ''6.3'', ''mg/1''),
                   (''NALOXONE HYDROCHLORIDE DIHYDRATE'', ''1'', ''mg/1'')]"

definition ex_pool :: "(string \<times> string) list" where
  "ex_pool = [(''A B'', ''1''), (''A C'', ''2'')]"

section \<open>Properties\<close>

subsection \<open>The operations of the registry on a registry that satisfies the invariant\<close>

text \<open>
  Each operation is described by the registry it returns: which objects change and how,
  and what becomes of \<open>eq_classes\<close> and of the key dictionaries. The invariant of the
  result follows from the description.
\<close>

lemma form_okD: "form_ok st \<Longrightarrow> (form_tuple_classes st ft = Some p) = (p \<in> live st \<and> ft \<in> form_tuples (obj st p))"
  unfolding form_ok_def by blast

lemma app_okD: "app_ok st \<Longrightarrow> (app_tuple_classes st at = Some p) = (p \<in> live st \<and> at \<in> app_tuples (obj st p))"
  unfolding app_ok_def by blast

lemma live_lt: "table_ok st \<Longrightarrow> p \<in> live st \<Longrightarrow> p < length (heap st)"
  unfolding table_ok_def live_def by auto

lemma form_uniq:
  "form_ok st \<Longrightarrow> p \<in> live st \<Longrightarrow> q \<in> live st \<Longrightarrow>
   ft \<in> form_tuples (obj st p) \<Longrightarrow> ft \<in> form_tuples (obj st q) \<Longrightarrow> p = q"
  using form_okD[of st ft p] form_okD[of st ft q] by simp

lemma app_uniq:
  "app_ok st \<Longrightarrow> p \<in> live st \<Longrightarrow> q \<in> live st \<Longrightarrow>
   at \<in> app_tuples (obj st p) \<Longrightarrow> at \<in> app_tuples (obj st q) \<Longrightarrow> p = q"
  using app_okD[of st at p] app_okD[of st at q] by simp

lemma distinct_snd_eq:
  "distinct (map snd xs) \<Longrightarrow> (k1, v) \<in> set xs \<Longrightarrow> (k2, v) \<in> set xs \<Longrightarrow> k1 = k2"
  by (induction xs) (auto simp: image_iff)

lemma add_app_tuple_inv:
  assumes "registry_inv st" "self \<in> live st" "app_tuple_classes st at = None"
  shows "\<exists>st'. add_app_tuple self at st = Inr st' \<and> registry_inv st' \<and>
           eq_classes st' = eq_classes st \<and> next_eq_id st' = next_eq_id st \<and>
           length (heap st') = length (heap st) \<and>
           (\<forall>p. p \<noteq> self \<longrightarrow> obj st' p = obj st p) \<and>
           obj st' self = (obj st self)\<lparr>app_tuples := insert at (app_tuples (obj st self))\<rparr>"
proof -
  from assms(1) have t: "table_ok st" and fo: "form_ok st" and ao: "app_ok st" and fi: "finite_ok st"
    by (simp_all add: registry_inv_def)
  from t assms(2) have lt: "self < length (heap st)" by (rule live_lt)
  define st' where "st' = set_obj self ((obj st self)\<lparr>app_tuples := insert at (app_tuples (obj st self))\<rparr>)
      (st\<lparr>app_tuple_classes := (app_tuple_classes st)(at \<mapsto> self)\<rparr>)"
  have r: "add_app_tuple self at st = Inr st'"
    using assms(3) by (simp add: add_app_tuple_def st'_def Let_def obj_def domIff)
  have f: "eq_classes st' = eq_classes st" "next_eq_id st' = next_eq_id st"
      "length (heap st') = length (heap st)" "form_tuple_classes st' = form_tuple_classes st"
      "app_tuple_classes st' = (app_tuple_classes st)(at \<mapsto> self)"
    by (simp_all add: st'_def set_obj_def)
  have lv: "live st' = live st" by (simp add: live_def f)
  have ob: "\<And>p. obj st' p = (if p = self then (obj st self)\<lparr>app_tuples := insert at (app_tuples (obj st self))\<rparr> else obj st p)"
    using lt by (simp add: st'_def obj_def set_obj_def)
  have nomem: "\<And>p. p \<in> live st \<Longrightarrow> at \<notin> app_tuples (obj st p)"
    using app_okD[OF ao, of at] assms(3) by auto
  have t': "table_ok st'"
    using t unfolding table_ok_def f ob by (auto split: if_splits)
  have fo': "form_ok st'"
    unfolding form_ok_def f ob lv using form_okD[OF fo] by simp
  have ao': "app_ok st'"
    unfolding app_ok_def f ob lv using app_okD[OF ao] nomem assms(2) by auto
  have fi': "finite_ok st'"
    using fi unfolding finite_ok_def lv ob by simp
  show ?thesis using r t' fo' ao' fi' f ob by (simp add: registry_inv_def)
qed

lemma add_form_tuple_inv:
  assumes "registry_inv st" "self \<in> live st" "form_tuple_classes st ft = None"
  shows "\<exists>st'. add_form_tuple self ft st = Inr st' \<and> registry_inv st' \<and>
           eq_classes st' = eq_classes st \<and> next_eq_id st' = next_eq_id st \<and>
           length (heap st') = length (heap st) \<and>
           (\<forall>p. p \<noteq> self \<longrightarrow> obj st' p = obj st p) \<and>
           obj st' self = (obj st self)\<lparr>form_tuples := insert ft (form_tuples (obj st self))\<rparr>"
proof -
  from assms(1) have t: "table_ok st" and fo: "form_ok st" and ao: "app_ok st" and fi: "finite_ok st"
    by (simp_all add: registry_inv_def)
  from t assms(2) have lt: "self < length (heap st)" by (rule live_lt)
  define st' where "st' = set_obj self ((obj st self)\<lparr>form_tuples := insert ft (form_tuples (obj st self))\<rparr>)
      (st\<lparr>form_tuple_classes := (form_tuple_classes st)(ft \<mapsto> self)\<rparr>)"
  have r: "add_form_tuple self ft st = Inr st'"
    using assms(3) by (simp add: add_form_tuple_def st'_def Let_def obj_def domIff)
  have f: "eq_classes st' = eq_classes st" "next_eq_id st' = next_eq_id st"
      "length (heap st') = length (heap st)" "app_tuple_classes st' = app_tuple_classes st"
      "form_tuple_classes st' = (form_tuple_classes st)(ft \<mapsto> self)"
    by (simp_all add: st'_def set_obj_def)
  have lv: "live st' = live st" by (simp add: live_def f)
  have ob: "\<And>p. obj st' p = (if p = self then (obj st self)\<lparr>form_tuples := insert ft (form_tuples (obj st self))\<rparr> else obj st p)"
    using lt by (simp add: st'_def obj_def set_obj_def)
  have nomem: "\<And>p. p \<in> live st \<Longrightarrow> ft \<notin> form_tuples (obj st p)"
    using form_okD[OF fo, of ft] assms(3) by auto
  have t': "table_ok st'"
    using t unfolding table_ok_def f ob by (auto split: if_splits)
  have ao': "app_ok st'"
    unfolding app_ok_def f ob lv using app_okD[OF ao] by simp
  have fo': "form_ok st'"
    unfolding form_ok_def f ob lv using form_okD[OF fo] nomem assms(2) by auto
  have fi': "finite_ok st'"
    using fi unfolding finite_ok_def lv ob by simp
  show ?thesis using r t' fo' ao' fi' f ob by (simp add: registry_inv_def)
qed

lemma merge_inv:
  assumes "registry_inv st" "self \<in> live st" "other \<in> live st" "self \<noteq> other"
  shows "\<exists>st'. merge self other st = Inr st' \<and> registry_inv st' \<and>
           live st' = live st - {other} \<and>
           eq_classes st' = filter (\<lambda>(k, p). p \<noteq> other) (eq_classes st) \<and>
           next_eq_id st' = next_eq_id st \<and>
           length (heap st') = length (heap st) \<and>
           (\<forall>p. p \<noteq> self \<longrightarrow> obj st' p = obj st p) \<and>
           obj st' self = (obj st self)\<lparr>
              form_tuples := form_tuples (obj st self) \<union> form_tuples (obj st other),
              app_tuples := app_tuples (obj st self) \<union> app_tuples (obj st other)\<rparr>"
proof -
  from assms(1) have t: "table_ok st" and fo: "form_ok st" and ao: "app_ok st" and fi: "finite_ok st"
    by (simp_all add: registry_inv_def)
  from t assms(2) have lt: "self < length (heap st)" by (rule live_lt)
  from assms(3) obtain i where i: "(i, other) \<in> set (eq_classes st)"
    by (auto simp: live_def)
  with t have idi: "eq_id (obj st other) = Some i"
    by (auto simp: table_ok_def)
  have flt: "filter (\<lambda>(k, p). k \<noteq> i) (eq_classes st) = filter (\<lambda>(k, p). p \<noteq> other) (eq_classes st)"
  proof (rule filter_cong[OF refl])
    fix x assume x: "x \<in> set (eq_classes st)"
    obtain k p where kp: "x = (k, p)" by (cases x)
    from t have d1: "distinct (map fst (eq_classes st))" and d2: "distinct (map snd (eq_classes st))"
      by (simp_all add: table_ok_def)
    have "k = i \<longleftrightarrow> p = other"
      using x i kp eq_key_imp_eq_value[OF d1, of i other p] distinct_snd_eq[OF d2, of i other k]
      by auto
    then show "(case x of (k, p) \<Rightarrow> k \<noteq> i) = (case x of (k, p) \<Rightarrow> p \<noteq> other)"
      by (simp add: kp)
  qed
  define c where "c = (obj st self)\<lparr>
              form_tuples := form_tuples (obj st self) \<union> form_tuples (obj st other),
              app_tuples := app_tuples (obj st self) \<union> app_tuples (obj st other)\<rparr>"
  define st' where "st' = st\<lparr>heap := (heap st)[self := c],
       form_tuple_classes := (\<lambda>ft. if ft \<in> form_tuples (obj st other) then Some self
                         else form_tuple_classes st ft),
       app_tuple_classes := (\<lambda>at. if at \<in> app_tuples (obj st other) then Some self
                         else app_tuple_classes st at),
       eq_classes := filter (\<lambda>(k, p). p \<noteq> other) (eq_classes st)\<rparr>"
  have mem: "i \<in> fst ` set (eq_classes st)" using i by force
  have r: "merge self other st = Inr st'"
    using lt assms(4) idi mem flt
    by (simp add: merge_def Let_def set_obj_def obj_def st'_def c_def cong: if_cong)
  have f: "eq_classes st' = filter (\<lambda>(k, p). p \<noteq> other) (eq_classes st)" "next_eq_id st' = next_eq_id st"
      "length (heap st') = length (heap st)" 
      "form_tuple_classes st' = (\<lambda>ft. if ft \<in> form_tuples (obj st other) then Some self
                         else form_tuple_classes st ft)"
      "app_tuple_classes st' = (\<lambda>at. if at \<in> app_tuples (obj st other) then Some self
                         else app_tuple_classes st at)"
    by (simp_all add: st'_def)
  have lv: "live st' = live st - {other}" by (auto simp: live_def f image_iff)
  have ob: "\<And>p. obj st' p = (if p = self then c else obj st p)"
    using lt by (simp add: st'_def obj_def)
  have t': "table_ok st'"
    using t assms(4) unfolding table_ok_def f ob
    by (auto simp: distinct_map_filter c_def split: if_splits)
  have fo': "form_ok st'"
    unfolding form_ok_def f ob lv using form_okD[OF fo] form_uniq[OF fo] assms(2,3,4)
    by (auto simp: c_def)
  have ao': "app_ok st'"
    unfolding app_ok_def f ob lv using app_okD[OF ao] app_uniq[OF ao] assms(2,3,4)
    by (auto simp: c_def)
  have fi': "finite_ok st'"
    using fi assms(2,3) unfolding finite_ok_def lv ob by (auto simp: c_def)
  show ?thesis using r t' fo' ao' fi' f ob lv by (simp add: registry_inv_def c_def)
qed

lemma add_form_tuples_spec:
  assumes "self < length (heap st0)" "distinct fts" "set fts \<inter> dom (form_tuple_classes st0) = {}"
  shows "\<exists>st1. add_form_tuples self fts st0 = Inr st1 \<and>
           heap st1 = (heap st0)[self := (obj st0 self)\<lparr>form_tuples := form_tuples (obj st0 self) \<union> set fts\<rparr>] \<and>
           form_tuple_classes st1 = (\<lambda>ft. if ft \<in> set fts then Some self else form_tuple_classes st0 ft) \<and>
           app_tuple_classes st1 = app_tuple_classes st0 \<and>
           eq_classes st1 = eq_classes st0 \<and> next_eq_id st1 = next_eq_id st0"
  using assms
proof (induction fts arbitrary: st0)
  case Nil
  show ?case by (simp add: obj_def)
next
  case (Cons ft fts)
  define st0' where "st0' = set_obj self ((obj st0 self)\<lparr>form_tuples := insert ft (form_tuples (obj st0 self))\<rparr>)
      (st0\<lparr>form_tuple_classes := (form_tuple_classes st0)(ft \<mapsto> self)\<rparr>)"
  have r: "add_form_tuple self ft st0 = Inr st0'"
    using Cons.prems(3) by (simp add: add_form_tuple_def st0'_def Let_def obj_def domIff)
  have f: "eq_classes st0' = eq_classes st0" "next_eq_id st0' = next_eq_id st0"
      "app_tuple_classes st0' = app_tuple_classes st0"
      "form_tuple_classes st0' = (form_tuple_classes st0)(ft \<mapsto> self)"
      "heap st0' = (heap st0)[self := (obj st0 self)\<lparr>form_tuples := insert ft (form_tuples (obj st0 self))\<rparr>]"
    by (simp_all add: st0'_def set_obj_def)
  have o: "obj st0' self = (obj st0 self)\<lparr>form_tuples := insert ft (form_tuples (obj st0 self))\<rparr>"
    using Cons.prems(1) by (simp add: obj_def f)
  have p1: "self < length (heap st0')" using Cons.prems(1) by (simp add: f)
  have p2: "distinct fts" using Cons.prems(2) by simp
  have p3: "set fts \<inter> dom (form_tuple_classes st0') = {}"
    using Cons.prems(2,3) by (auto simp: f)
  from Cons.IH[OF p1 p2 p3] obtain st1 where
    s: "add_form_tuples self fts st0' = Inr st1"
       "heap st1 = (heap st0')[self := (obj st0' self)\<lparr>form_tuples := form_tuples (obj st0' self) \<union> set fts\<rparr>]"
       "form_tuple_classes st1 = (\<lambda>x. if x \<in> set fts then Some self else form_tuple_classes st0' x)"
       "app_tuple_classes st1 = app_tuple_classes st0'"
       "eq_classes st1 = eq_classes st0'" "next_eq_id st1 = next_eq_id st0'"
    by blast
  have "add_form_tuples self (ft # fts) st0 = Inr st1" using r s(1) by simp
  moreover have "heap st1 = (heap st0)[self := (obj st0 self)\<lparr>form_tuples := form_tuples (obj st0 self) \<union> set (ft # fts)\<rparr>]"
    by (simp add: s(2) o f)
  moreover have "form_tuple_classes st1 = (\<lambda>x. if x \<in> set (ft # fts) then Some self else form_tuple_classes st0 x)"
    by (auto simp: s(3) f fun_eq_iff)
  ultimately show ?case using s(4,5,6) f(1,2,3) by simp
qed

lemma add_form_tuples_Inr:
  "add_form_tuples self fts st0 = Inr st1 \<Longrightarrow>
     distinct fts \<and> set fts \<inter> dom (form_tuple_classes st0) = {}"
proof (induction fts arbitrary: st0)
  case Nil
  show ?case by simp
next
  case (Cons ft fts)
  from Cons.prems obtain st0' where
    r: "add_form_tuple self ft st0 = Inr st0'" and s: "add_form_tuples self fts st0' = Inr st1"
    by (auto split: sum.splits)
  from r have n: "ft \<notin> dom (form_tuple_classes st0)"
    and f: "form_tuple_classes st0' = (form_tuple_classes st0)(ft \<mapsto> self)"
    by (auto simp: add_form_tuple_def Let_def set_obj_def split: if_splits)
  from Cons.IH[OF s] have "distinct fts" "set fts \<inter> dom (form_tuple_classes st0') = {}"
    by simp_all
  with n f show ?case by auto
qed

lemma add_app_tuples_spec:
  assumes "self < length (heap st0)" "distinct ats" "set ats \<inter> dom (app_tuple_classes st0) = {}"
  shows "\<exists>st1. add_app_tuples self ats st0 = Inr st1 \<and>
           heap st1 = (heap st0)[self := (obj st0 self)\<lparr>app_tuples := app_tuples (obj st0 self) \<union> set ats\<rparr>] \<and>
           app_tuple_classes st1 = (\<lambda>at. if at \<in> set ats then Some self else app_tuple_classes st0 at) \<and>
           form_tuple_classes st1 = form_tuple_classes st0 \<and>
           eq_classes st1 = eq_classes st0 \<and> next_eq_id st1 = next_eq_id st0"
  using assms
proof (induction ats arbitrary: st0)
  case Nil
  show ?case by (simp add: obj_def)
next
  case (Cons at ats)
  define st0' where "st0' = set_obj self ((obj st0 self)\<lparr>app_tuples := insert at (app_tuples (obj st0 self))\<rparr>)
      (st0\<lparr>app_tuple_classes := (app_tuple_classes st0)(at \<mapsto> self)\<rparr>)"
  have r: "add_app_tuple self at st0 = Inr st0'"
    using Cons.prems(3) by (simp add: add_app_tuple_def st0'_def Let_def obj_def domIff)
  have f: "eq_classes st0' = eq_classes st0" "next_eq_id st0' = next_eq_id st0"
      "form_tuple_classes st0' = form_tuple_classes st0"
      "app_tuple_classes st0' = (app_tuple_classes st0)(at \<mapsto> self)"
      "heap st0' = (heap st0)[self := (obj st0 self)\<lparr>app_tuples := insert at (app_tuples (obj st0 self))\<rparr>]"
    by (simp_all add: st0'_def set_obj_def)
  have o: "obj st0' self = (obj st0 self)\<lparr>app_tuples := insert at (app_tuples (obj st0 self))\<rparr>"
    using Cons.prems(1) by (simp add: obj_def f)
  have p1: "self < length (heap st0')" using Cons.prems(1) by (simp add: f)
  have p2: "distinct ats" using Cons.prems(2) by simp
  have p3: "set ats \<inter> dom (app_tuple_classes st0') = {}"
    using Cons.prems(2,3) by (auto simp: f)
  from Cons.IH[OF p1 p2 p3] obtain st1 where
    s: "add_app_tuples self ats st0' = Inr st1"
       "heap st1 = (heap st0')[self := (obj st0' self)\<lparr>app_tuples := app_tuples (obj st0' self) \<union> set ats\<rparr>]"
       "app_tuple_classes st1 = (\<lambda>x. if x \<in> set ats then Some self else app_tuple_classes st0' x)"
       "form_tuple_classes st1 = form_tuple_classes st0'"
       "eq_classes st1 = eq_classes st0'" "next_eq_id st1 = next_eq_id st0'"
    by blast
  have "add_app_tuples self (at # ats) st0 = Inr st1" using r s(1) by simp
  moreover have "heap st1 = (heap st0)[self := (obj st0 self)\<lparr>app_tuples := app_tuples (obj st0 self) \<union> set (at # ats)\<rparr>]"
    by (simp add: s(2) o f)
  moreover have "app_tuple_classes st1 = (\<lambda>x. if x \<in> set (at # ats) then Some self else app_tuple_classes st0 x)"
    by (auto simp: s(3) f fun_eq_iff)
  ultimately show ?case using s(4,5,6) f(1,2,3) by simp
qed

lemma add_app_tuples_Inr:
  "add_app_tuples self ats st0 = Inr st1 \<Longrightarrow>
     distinct ats \<and> set ats \<inter> dom (app_tuple_classes st0) = {}"
proof (induction ats arbitrary: st0)
  case Nil
  show ?case by simp
next
  case (Cons at ats)
  from Cons.prems obtain st0' where
    r: "add_app_tuple self at st0 = Inr st0'" and s: "add_app_tuples self ats st0' = Inr st1"
    by (auto split: sum.splits)
  from r have n: "at \<notin> dom (app_tuple_classes st0)"
    and f: "app_tuple_classes st0' = (app_tuple_classes st0)(at \<mapsto> self)"
    by (auto simp: add_app_tuple_def Let_def set_obj_def split: if_splits)
  from Cons.IH[OF s] have "distinct ats" "set ats \<inter> dom (app_tuple_classes st0') = {}"
    by simp_all
  with n f show ?case by auto
qed

lemma next_id_fresh: "table_ok st \<Longrightarrow> next_eq_id st \<notin> fst ` set (eq_classes st)"
  unfolding table_ok_def by force

lemma init_spec:
  assumes inv: "registry_inv st"
    and d: "distinct fts" "distinct ats"
    and un: "set fts \<inter> dom (form_tuple_classes st) = {}" "set ats \<inter> dom (app_tuple_classes st) = {}"
    and i: "i = (case arg of None \<Rightarrow> next_eq_id st | Some j \<Rightarrow> j)" "i \<notin> fst ` set (eq_classes st)"
  shows "\<exists>st'. EquivalenceClass_init fts ats arg st = Inr (st', length (heap st)) \<and> registry_inv st' \<and>
     heap st' = heap st @ [\<lparr>form_tuples = set fts, app_tuples = set ats, eq_id = Some i\<rparr>] \<and>
     eq_classes st' = eq_classes st @ [(i, length (heap st))] \<and>
     next_eq_id st' = (case arg of None \<Rightarrow> next_eq_id st + 1 | Some j \<Rightarrow> max (next_eq_id st) (j + 1)) \<and>
     form_tuple_classes st' = (\<lambda>ft. if ft \<in> set fts then Some (length (heap st)) else form_tuple_classes st ft) \<and>
     app_tuple_classes st' = (\<lambda>at. if at \<in> set ats then Some (length (heap st)) else app_tuple_classes st at)"
proof -
  from inv have t: "table_ok st" and fo: "form_ok st" and ao: "app_ok st" and fi: "finite_ok st"
    by (simp_all add: registry_inv_def)
  define self where "self = length (heap st)"
  define st0 where "st0 = st\<lparr>heap := heap st @ [\<lparr>form_tuples = {}, app_tuples = {}, eq_id = None\<rparr>]\<rparr>"
  have lt0: "self < length (heap st0)" by (simp add: st0_def self_def)
  have un0: "set fts \<inter> dom (form_tuple_classes st0) = {}" using un(1) by (simp add: st0_def)
  from add_form_tuples_spec[OF lt0 d(1) un0] obtain st1 where
    s1: "add_form_tuples self fts st0 = Inr st1"
        "heap st1 = (heap st0)[self := (obj st0 self)\<lparr>form_tuples := form_tuples (obj st0 self) \<union> set fts\<rparr>]"
        "form_tuple_classes st1 = (\<lambda>ft. if ft \<in> set fts then Some self else form_tuple_classes st0 ft)"
        "app_tuple_classes st1 = app_tuple_classes st0"
        "eq_classes st1 = eq_classes st0" "next_eq_id st1 = next_eq_id st0"
    by blast
  have lt1: "self < length (heap st1)" using lt0 by (simp add: s1(2))
  have un1: "set ats \<inter> dom (app_tuple_classes st1) = {}" using un(2) by (simp add: s1(4) st0_def)
  from add_app_tuples_spec[OF lt1 d(2) un1] obtain st2 where
    s2: "add_app_tuples self ats st1 = Inr st2"
        "heap st2 = (heap st1)[self := (obj st1 self)\<lparr>app_tuples := app_tuples (obj st1 self) \<union> set ats\<rparr>]"
        "app_tuple_classes st2 = (\<lambda>at. if at \<in> set ats then Some self else app_tuple_classes st1 at)"
        "form_tuple_classes st2 = form_tuple_classes st1"
        "eq_classes st2 = eq_classes st1" "next_eq_id st2 = next_eq_id st1"
    by blast
  have h2: "heap st2 = heap st @ [\<lparr>form_tuples = set fts, app_tuples = set ats, eq_id = None\<rparr>]"
    by (simp add: s2(2) s1(2) obj_def st0_def self_def)
  have e2: "eq_classes st2 = eq_classes st" "next_eq_id st2 = next_eq_id st"
    by (simp_all add: s2 s1 st0_def)
  define nx where "nx = (case arg of None \<Rightarrow> next_eq_id st + 1 | Some j \<Rightarrow> max (next_eq_id st) (j + 1))"
  define st' where "st' = st2\<lparr>next_eq_id := nx,
      heap := heap st @ [\<lparr>form_tuples = set fts, app_tuples = set ats, eq_id = Some i\<rparr>],
      eq_classes := eq_classes st @ [(i, self)]\<rparr>"
  have r: "EquivalenceClass_init fts ats arg st = Inr (st', length (heap st))"
    using s1(1) s2(1) i h2 e2
    unfolding EquivalenceClass_init_def Let_def self_def[symmetric] st0_def[symmetric]
    by (cases arg) (simp_all add: st'_def nx_def set_obj_def obj_def self_def)
  have f: "heap st' = heap st @ [\<lparr>form_tuples = set fts, app_tuples = set ats, eq_id = Some i\<rparr>]"
     "eq_classes st' = eq_classes st @ [(i, self)]"
     "next_eq_id st' = nx"
     "form_tuple_classes st' = (\<lambda>ft. if ft \<in> set fts then Some self else form_tuple_classes st ft)"
     "app_tuple_classes st' = (\<lambda>at. if at \<in> set ats then Some self else app_tuple_classes st at)"
    by (simp_all add: st'_def s2 s1 st0_def cong: if_cong)
  have lv: "live st' = insert self (live st)" by (auto simp: live_def f)
  have nl: "self \<notin> live st" using live_lt[OF t, of self] by (auto simp: self_def)
  have ob: "\<And>p. p \<in> live st \<Longrightarrow> obj st' p = obj st p"
    using live_lt[OF t] by (simp add: obj_def f nth_append)
  have obs: "obj st' self = \<lparr>form_tuples = set fts, app_tuples = set ats, eq_id = Some i\<rparr>"
    by (simp add: obj_def f self_def)
  have nxi: "i < nx" "next_eq_id st \<le> nx"
    using i(1) by (auto simp: nx_def split: option.splits)
  have old: "\<forall>(j, p) \<in> set (eq_classes st).
      p < Suc (length (heap st)) \<and> eq_id (obj st' p) = Some j \<and> j < nx"
  proof clarify
    fix j p assume jp: "(j, p) \<in> set (eq_classes st)"
    then have "p \<in> live st" by (force simp: live_def)
    with ob[of p] jp t nxi(2) show "p < Suc (length (heap st)) \<and> eq_id (obj st' p) = Some j \<and> j < nx"
      by (auto simp: table_ok_def)
  qed
  have d1: "distinct (map fst (eq_classes st @ [(i, self)]))"
    using t i(2) by (simp add: table_ok_def)
  have d2: "distinct (map snd (eq_classes st @ [(i, self)]))"
    using t nl by (simp add: table_ok_def live_def)
  have t': "table_ok st'"
    unfolding table_ok_def f(2,3) using d1 d2 old nxi(1) obs
    by (simp add: f(1) self_def)
  have nomf: "\<And>ft p. ft \<in> set fts \<Longrightarrow> p \<in> live st \<Longrightarrow> ft \<notin> form_tuples (obj st p)"
  proof
    fix ft p assume a: "ft \<in> set fts" "p \<in> live st" "ft \<in> form_tuples (obj st p)"
    then have "form_tuple_classes st ft = Some p" using form_okD[OF fo] by simp
    with a(1) un(1) show False by auto
  qed
  have noma: "\<And>at p. at \<in> set ats \<Longrightarrow> p \<in> live st \<Longrightarrow> at \<notin> app_tuples (obj st p)"
  proof
    fix at p assume a: "at \<in> set ats" "p \<in> live st" "at \<in> app_tuples (obj st p)"
    then have "app_tuple_classes st at = Some p" using app_okD[OF ao] by simp
    with a(1) un(2) show False by auto
  qed
  have fo': "form_ok st'"
    unfolding form_ok_def lv f using form_okD[OF fo] nomf nl ob obs
    by auto
  have ao': "app_ok st'"
    unfolding app_ok_def lv f using app_okD[OF ao] noma nl ob obs
    by auto
  have fi': "finite_ok st'"
    using fi ob obs unfolding finite_ok_def lv by auto
  show ?thesis using r t' fo' ao' fi' f
    by (simp add: registry_inv_def nx_def self_def cong: if_cong)
qed

lemma keys_of_simps [simp]:
  "Inl ft \<in> keys_of c \<longleftrightarrow> ft \<in> form_tuples c"
  "Inr at \<in> keys_of c \<longleftrightarrow> at \<in> app_tuples c"
  by (auto simp: keys_of_def)

lemma comember_iff:
  "(k1, k2) \<in> comember st \<longleftrightarrow> (\<exists>p \<in> live st. k1 \<in> keys_of (obj st p) \<and> k2 \<in> keys_of (obj st p))"
  by (simp add: comember_def)

lemma Image_form_Some:
  assumes "registry_inv st" "form_tuple_classes st ft = Some c"
  shows "comember st `` {Inl ft} = keys_of (obj st c)"
proof -
  from assms(1) have fo: "form_ok st" by (simp add: registry_inv_def)
  from form_okD[OF fo, of ft c] assms(2) have c: "c \<in> live st" "ft \<in> form_tuples (obj st c)"
    by simp_all
  show ?thesis
  proof (rule set_eqI)
    fix k
    show "k \<in> comember st `` {Inl ft} \<longleftrightarrow> k \<in> keys_of (obj st c)"
    proof
      assume "k \<in> comember st `` {Inl ft}"
      then obtain p where p: "p \<in> live st" "ft \<in> form_tuples (obj st p)" "k \<in> keys_of (obj st p)"
        by (auto simp: comember_iff)
      from form_uniq[OF fo p(1) c(1) p(2) c(2)] p(3) show "k \<in> keys_of (obj st c)" by simp
    next
      assume "k \<in> keys_of (obj st c)"
      with c show "k \<in> comember st `` {Inl ft}" by (auto simp: comember_iff)
    qed
  qed
qed

lemma Image_form_None:
  assumes "registry_inv st" "form_tuple_classes st ft = None"
  shows "comember st `` {Inl ft} = {}"
proof -
  from assms(1) have fo: "form_ok st" by (simp add: registry_inv_def)
  have "\<And>p. p \<in> live st \<Longrightarrow> ft \<notin> form_tuples (obj st p)"
    using form_okD[OF fo, of ft] assms(2) by auto
  then show ?thesis by (auto simp: comember_iff)
qed

lemma Image_app_Some:
  assumes "registry_inv st" "app_tuple_classes st at = Some c"
  shows "comember st `` {Inr at} = keys_of (obj st c)"
proof -
  from assms(1) have ao: "app_ok st" by (simp add: registry_inv_def)
  from app_okD[OF ao, of at c] assms(2) have c: "c \<in> live st" "at \<in> app_tuples (obj st c)"
    by simp_all
  show ?thesis
  proof (rule set_eqI)
    fix k
    show "k \<in> comember st `` {Inr at} \<longleftrightarrow> k \<in> keys_of (obj st c)"
    proof
      assume "k \<in> comember st `` {Inr at}"
      then obtain p where p: "p \<in> live st" "at \<in> app_tuples (obj st p)" "k \<in> keys_of (obj st p)"
        by (auto simp: comember_iff)
      from app_uniq[OF ao p(1) c(1) p(2) c(2)] p(3) show "k \<in> keys_of (obj st c)" by simp
    next
      assume "k \<in> keys_of (obj st c)"
      with c show "k \<in> comember st `` {Inr at}" by (auto simp: comember_iff)
    qed
  qed
qed

lemma Image_app_None:
  assumes "registry_inv st" "app_tuple_classes st at = None"
  shows "comember st `` {Inr at} = {}"
proof -
  from assms(1) have ao: "app_ok st" by (simp add: registry_inv_def)
  have "\<And>p. p \<in> live st \<Longrightarrow> at \<notin> app_tuples (obj st p)"
    using app_okD[OF ao, of at] assms(2) by auto
  then show ?thesis by (auto simp: comember_iff)
qed

text \<open>How the co-member relation changes when one live class grows or absorbs.\<close>

lemma comember_grow:
  assumes lv: "live st' = live st - D" and c: "c \<in> live st" "c \<notin> D"
    and kc: "keys_of (obj st' c) = K" and ko: "\<And>p. p \<in> live st \<Longrightarrow> p \<noteq> c \<Longrightarrow> obj st' p = obj st p"
    and sub: "keys_of (obj st c) \<subseteq> K" and d: "\<And>p. p \<in> D \<Longrightarrow> p \<in> live st \<Longrightarrow> keys_of (obj st p) \<subseteq> K"
  shows "comember st' = comember st \<union> K \<times> K"
proof (rule set_eqI, clarify)
  fix k1 k2
  show "(k1, k2) \<in> comember st' \<longleftrightarrow> (k1, k2) \<in> comember st \<union> K \<times> K"
  proof
    assume "(k1, k2) \<in> comember st'"
    then obtain p where p: "p \<in> live st" "p \<notin> D" "k1 \<in> keys_of (obj st' p)" "k2 \<in> keys_of (obj st' p)"
      by (auto simp: comember_iff lv)
    show "(k1, k2) \<in> comember st \<union> K \<times> K"
    proof (cases "p = c")
      case True with p kc show ?thesis by simp
    next
      case False with p ko[of p] show ?thesis by (auto simp: comember_iff)
    qed
  next
    assume "(k1, k2) \<in> comember st \<union> K \<times> K"
    then consider "(k1, k2) \<in> K \<times> K" | "(k1, k2) \<in> comember st" by blast
    then show "(k1, k2) \<in> comember st'"
    proof cases
      case 1 with c kc lv show ?thesis by (auto simp: comember_iff)
    next
      case 2
      then obtain p where p: "p \<in> live st" "k1 \<in> keys_of (obj st p)" "k2 \<in> keys_of (obj st p)"
        by (auto simp: comember_iff)
      have cl: "c \<in> live st'" using c lv by simp
      show ?thesis
      proof (cases "p = c \<or> p \<in> D")
        case True
        with p sub d[of p] have "k1 \<in> K" "k2 \<in> K" by auto
        with cl kc show ?thesis by (auto simp: comember_iff)
      next
        case False
        with p ko[of p] lv have "p \<in> live st'" "k1 \<in> keys_of (obj st' p)" "k2 \<in> keys_of (obj st' p)"
          by simp_all
        then show ?thesis unfolding comember_iff by blast
      qed
    qed
  qed
qed

lemma comember_new:
  assumes lv: "live st' = insert n (live st)"
    and ko: "\<And>p. p \<in> live st \<Longrightarrow> obj st' p = obj st p"
    and kn: "keys_of (obj st' n) = K" and nl: "n \<notin> live st"
  shows "comember st' = comember st \<union> K \<times> K"
proof (rule set_eqI, clarify)
  fix k1 k2
  show "(k1, k2) \<in> comember st' \<longleftrightarrow> (k1, k2) \<in> comember st \<union> K \<times> K"
  proof
    assume "(k1, k2) \<in> comember st'"
    then obtain p where p: "p = n \<or> p \<in> live st" "k1 \<in> keys_of (obj st' p)" "k2 \<in> keys_of (obj st' p)"
      by (auto simp: comember_iff lv)
    show "(k1, k2) \<in> comember st \<union> K \<times> K"
    proof (cases "p = n")
      case True with p kn show ?thesis by simp
    next
      case False with p ko[of p] show ?thesis by (auto simp: comember_iff)
    qed
  next
    assume "(k1, k2) \<in> comember st \<union> K \<times> K"
    then consider "(k1, k2) \<in> K \<times> K" | "(k1, k2) \<in> comember st" by blast
    then show "(k1, k2) \<in> comember st'"
    proof cases
      case 1 with kn lv show ?thesis by (auto simp: comember_iff)
    next
      case 2
      then obtain p where p: "p \<in> live st" "k1 \<in> keys_of (obj st p)" "k2 \<in> keys_of (obj st p)"
        by (auto simp: comember_iff)
      with ko[of p] lv have "p \<in> live st'" "k1 \<in> keys_of (obj st' p)" "k2 \<in> keys_of (obj st' p)"
        by simp_all
      then show ?thesis unfolding comember_iff by blast
    qed
  qed
qed

lemma ids_same:
  assumes "length (heap st') = length (heap st)" "next_eq_id st' = next_eq_id st"
    "\<And>p. eq_id (obj st' p) = eq_id (obj st p)"
  shows "ids_kept st st' \<and> (ids_unique st \<longrightarrow> ids_unique st')"
  using assms by (simp add: ids_kept_def ids_unique_def)

lemma ids_new:
  assumes "heap st' = heap st @ [c]" "eq_id c = Some (next_eq_id st)"
    "next_eq_id st' = next_eq_id st + 1"
  shows "ids_kept st st' \<and> (ids_unique st \<longrightarrow> ids_unique st')"
proof
  show "ids_kept st st'" using assms by (simp add: ids_kept_def obj_def nth_append)
  show "ids_unique st \<longrightarrow> ids_unique st'"
  proof
    assume u: "ids_unique st"
    have o: "\<And>p. p < length (heap st) \<Longrightarrow> obj st' p = obj st p"
      using assms(1) by (simp add: obj_def nth_append)
    have n: "obj st' (length (heap st)) = c" using assms(1) by (simp add: obj_def)
    have b: "\<And>p. p < length (heap st) \<Longrightarrow> \<exists>i. eq_id (obj st p) = Some i \<and> i < next_eq_id st"
      using u by (simp add: ids_unique_def)
    have inj: "\<And>p q. p < length (heap st) \<Longrightarrow> q < length (heap st) \<Longrightarrow>
        eq_id (obj st p) = eq_id (obj st q) \<Longrightarrow> p = q"
      using u by (simp add: ids_unique_def)
    show "ids_unique st'"
      unfolding ids_unique_def
    proof (intro conjI allI impI)
      fix p assume "p < length (heap st')"
      then consider "p < length (heap st)" | "p = length (heap st)" using assms(1) by force
      then show "\<exists>i. eq_id (obj st' p) = Some i \<and> i < next_eq_id st'"
      proof cases
        case 1 with b[of p] o[of p] assms(3) show ?thesis by auto
      next
        case 2 with n assms(2,3) show ?thesis by simp
      qed
    next
      fix p q assume pq: "p < length (heap st')" "q < length (heap st')"
        "eq_id (obj st' p) = eq_id (obj st' q)"
      have pl: "p < length (heap st) \<or> p = length (heap st)" using pq(1) assms(1) by force
      have ql: "q < length (heap st) \<or> q = length (heap st)" using pq(2) assms(1) by force
      show "p = q"
        using pl ql pq(3) b[of p] b[of q] o[of p] o[of q] n assms(2) inj[of p q]
        by auto
    qed
  qed
qed

lemma add_post_same:
  assumes inv: "registry_inv st" and f: "form_tuple_classes st ft = Some c"
    and a: "app_tuple_classes st at = Some c"
  shows "add_keys ft at st = Inr (st, c) \<and> add_post ft at st st c"
proof -
  from inv have fo: "form_ok st" and ao: "app_ok st" by (simp_all add: registry_inv_def)
  from form_okD[OF fo, of ft c] f have c: "c \<in> live st" "ft \<in> form_tuples (obj st c)" by simp_all
  from app_okD[OF ao, of at c] a have c2: "at \<in> app_tuples (obj st c)" by simp
  have r: "add_keys ft at st = Inr (st, c)"
    using f a c c2 by (simp add: add_keys_def get_form_def get_app_def append_ec_def)
  have n: "neighbours ft at st = keys_of (obj st c)"
    using c c2 by (auto simp: neighbours_def Image_form_Some[OF inv f] Image_app_Some[OF inv a])
  have "keys_of (obj st c) \<times> keys_of (obj st c) \<subseteq> comember st"
    using c(1) by (auto simp: comember_iff)
  then have cm: "comember st = comember st \<union> neighbours ft at st \<times> neighbours ft at st"
    unfolding n by blast
  have "ids_kept st st" by (simp add: ids_kept_def)
  with r inv f a cm show ?thesis by (simp add: add_post_def)
qed

lemma add_post_new:
  assumes inv: "registry_inv st" and f: "form_tuple_classes st ft = None"
    and a: "app_tuple_classes st at = None"
  shows "\<exists>st'. add_keys ft at st = Inr (st', length (heap st)) \<and> add_post ft at st st' (length (heap st))"
proof -
  from inv have t: "table_ok st" by (simp add: registry_inv_def)
  have un: "set [ft] \<inter> dom (form_tuple_classes st) = {}" "set [at] \<inter> dom (app_tuple_classes st) = {}"
    using f a by (auto simp: domIff)
  from init_spec[OF inv _ _ un, of "next_eq_id st" None] next_id_fresh[OF t]
  obtain st' where s:
     "EquivalenceClass_init [ft] [at] None st = Inr (st', length (heap st))" "registry_inv st'"
     "heap st' = heap st @ [\<lparr>form_tuples = set [ft], app_tuples = set [at], eq_id = Some (next_eq_id st)\<rparr>]"
     "eq_classes st' = eq_classes st @ [(next_eq_id st, length (heap st))]"
     "next_eq_id st' = next_eq_id st + 1"
     "form_tuple_classes st' = (\<lambda>x. if x \<in> set [ft] then Some (length (heap st)) else form_tuple_classes st x)"
     "app_tuple_classes st' = (\<lambda>x. if x \<in> set [at] then Some (length (heap st)) else app_tuple_classes st x)"
    by auto
  have r: "add_keys ft at st = Inr (st', length (heap st))"
    using f a s(1) by (simp add: add_keys_def get_form_def get_app_def)
  have n: "neighbours ft at st = {Inl ft, Inr at}"
    by (simp add: neighbours_def Image_form_None[OF inv f] Image_app_None[OF inv a])
  have lv: "live st' = insert (length (heap st)) (live st)" by (auto simp: live_def s(4))
  have ob: "\<And>p. p \<in> live st \<Longrightarrow> obj st' p = obj st p"
    using live_lt[OF t] by (simp add: obj_def s(3) nth_append)
  have nl: "length (heap st) \<notin> live st" using live_lt[OF t, of "length (heap st)"] by auto
  have kn: "keys_of (obj st' (length (heap st))) = {Inl ft, Inr at}"
    by (auto simp: obj_def s(3) keys_of_def)
  have cm: "comember st' = comember st \<union> {Inl ft, Inr at} \<times> {Inl ft, Inr at}"
    by (rule comember_new[OF lv ob kn nl])
  have ids: "ids_kept st st' \<and> (ids_unique st \<longrightarrow> ids_unique st')"
    by (rule ids_new[OF s(3) _ s(5)]) simp
  show ?thesis using r s(2) cm ids by (auto simp: add_post_def n s(6,7))
qed

lemma add_post_app:
  assumes inv: "registry_inv st" and f: "form_tuple_classes st ft = Some c"
    and a: "app_tuple_classes st at = None"
  shows "\<exists>st'. add_keys ft at st = Inr (st', c) \<and> add_post ft at st st' c"
proof -
  from inv have fo: "form_ok st" and ao: "app_ok st" by (simp_all add: registry_inv_def)
  from form_okD[OF fo, of ft c] f have c: "c \<in> live st" "ft \<in> form_tuples (obj st c)" by simp_all
  from app_okD[OF ao, of at c] a c(1) have c2: "at \<notin> app_tuples (obj st c)" by simp
  from add_app_tuple_inv[OF inv c(1) a] obtain st' where s:
    "add_app_tuple c at st = Inr st'" "registry_inv st'"
    "eq_classes st' = eq_classes st" "next_eq_id st' = next_eq_id st"
    "length (heap st') = length (heap st)"
    "\<And>p. p \<noteq> c \<Longrightarrow> obj st' p = obj st p"
    "obj st' c = (obj st c)\<lparr>app_tuples := insert at (app_tuples (obj st c))\<rparr>"
    by blast
  have r: "add_keys ft at st = Inr (st', c)"
    using f a c c2 s(1) by (simp add: add_keys_def get_form_def get_app_def append_ec_def)
  have lv: "live st' = live st - {}" by (simp add: live_def s(3))
  have kc: "keys_of (obj st' c) = insert (Inr at) (keys_of (obj st c))"
    by (auto simp: s(7) keys_of_def)
  have cm: "comember st' = comember st \<union>
      insert (Inr at) (keys_of (obj st c)) \<times> insert (Inr at) (keys_of (obj st c))"
    by (rule comember_grow[OF lv c(1) _ kc]) (auto simp: s(6))
  have n: "neighbours ft at st = insert (Inr at) (keys_of (obj st c))"
    using c by (auto simp: neighbours_def Image_form_Some[OF inv f] Image_app_None[OF inv a])
  have e: "\<And>p. eq_id (obj st' p) = eq_id (obj st p)"
    using s(6,7) by (case_tac "p = c") simp_all
  have ids: "ids_kept st st' \<and> (ids_unique st \<longrightarrow> ids_unique st')"
    by (rule ids_same[OF s(5) s(4) e])
  from s(2) have fo': "form_ok st'" and ao': "app_ok st'" by (simp_all add: registry_inv_def)
  have cl: "c \<in> live st'" using c(1) lv by simp
  have m1: "form_tuple_classes st' ft = Some c"
    using form_okD[OF fo', of ft c] cl c(2) by (simp add: s(7))
  have m2: "app_tuple_classes st' at = Some c"
    using app_okD[OF ao', of at c] cl by (simp add: s(7))
  show ?thesis using r s(2) m1 m2 cm ids by (simp add: add_post_def n)
qed

lemma add_post_form:
  assumes inv: "registry_inv st" and f: "form_tuple_classes st ft = None"
    and a: "app_tuple_classes st at = Some c"
  shows "\<exists>st'. add_keys ft at st = Inr (st', c) \<and> add_post ft at st st' c"
proof -
  from inv have fo: "form_ok st" and ao: "app_ok st" by (simp_all add: registry_inv_def)
  from app_okD[OF ao, of at c] a have c: "c \<in> live st" "at \<in> app_tuples (obj st c)" by simp_all
  from form_okD[OF fo, of ft c] f c(1) have c2: "ft \<notin> form_tuples (obj st c)" by simp
  from add_form_tuple_inv[OF inv c(1) f] obtain st' where s:
    "add_form_tuple c ft st = Inr st'" "registry_inv st'"
    "eq_classes st' = eq_classes st" "next_eq_id st' = next_eq_id st"
    "length (heap st') = length (heap st)"
    "\<And>p. p \<noteq> c \<Longrightarrow> obj st' p = obj st p"
    "obj st' c = (obj st c)\<lparr>form_tuples := insert ft (form_tuples (obj st c))\<rparr>"
    by blast
  have r: "add_keys ft at st = Inr (st', c)"
    using f a c c2 s(1) by (simp add: add_keys_def get_form_def get_app_def append_ec_def)
  have lv: "live st' = live st - {}" by (simp add: live_def s(3))
  have kc: "keys_of (obj st' c) = insert (Inl ft) (keys_of (obj st c))"
    by (auto simp: s(7) keys_of_def)
  have cm: "comember st' = comember st \<union>
      insert (Inl ft) (keys_of (obj st c)) \<times> insert (Inl ft) (keys_of (obj st c))"
    by (rule comember_grow[OF lv c(1) _ kc]) (auto simp: s(6))
  have n: "neighbours ft at st = insert (Inl ft) (keys_of (obj st c))"
    using c by (auto simp: neighbours_def Image_form_None[OF inv f] Image_app_Some[OF inv a])
  have e: "\<And>p. eq_id (obj st' p) = eq_id (obj st p)"
    using s(6,7) by (case_tac "p = c") simp_all
  have ids: "ids_kept st st' \<and> (ids_unique st \<longrightarrow> ids_unique st')"
    by (rule ids_same[OF s(5) s(4) e])
  from s(2) have fo': "form_ok st'" and ao': "app_ok st'" by (simp_all add: registry_inv_def)
  have cl: "c \<in> live st'" using c(1) lv by simp
  have m1: "form_tuple_classes st' ft = Some c"
    using form_okD[OF fo', of ft c] cl by (simp add: s(7))
  have m2: "app_tuple_classes st' at = Some c"
    using app_okD[OF ao', of at c] cl c(2) by (simp add: s(7))
  show ?thesis using r s(2) m1 m2 cm ids by (simp add: add_post_def n)
qed

lemma add_post_merge:
  assumes inv: "registry_inv st" and f: "form_tuple_classes st ft = Some c"
    and a: "app_tuple_classes st at = Some d" and ne: "d \<noteq> c"
  shows "\<exists>st'. add_keys ft at st = Inr (st', c) \<and> add_post ft at st st' c \<and>
           live st' = live st - {d} \<and>
           eq_classes st' = filter (\<lambda>(k, p). p \<noteq> d) (eq_classes st) \<and>
           obj st' c = (obj st c)\<lparr>
              form_tuples := form_tuples (obj st c) \<union> form_tuples (obj st d),
              app_tuples := app_tuples (obj st c) \<union> app_tuples (obj st d)\<rparr>"
proof -
  from inv have fo: "form_ok st" and ao: "app_ok st" by (simp_all add: registry_inv_def)
  from form_okD[OF fo, of ft c] f have c: "c \<in> live st" "ft \<in> form_tuples (obj st c)" by simp_all
  from app_okD[OF ao, of at d] a have d: "d \<in> live st" "at \<in> app_tuples (obj st d)" by simp_all
  from ne have ne': "c \<noteq> d" by simp
  from merge_inv[OF inv c(1) d(1) ne'] obtain st' where s:
    "merge c d st = Inr st'" "registry_inv st'" "live st' = live st - {d}"
    "eq_classes st' = filter (\<lambda>(k, p). p \<noteq> d) (eq_classes st)"
    "next_eq_id st' = next_eq_id st" "length (heap st') = length (heap st)"
    "\<And>p. p \<noteq> c \<Longrightarrow> obj st' p = obj st p"
    "obj st' c = (obj st c)\<lparr>
              form_tuples := form_tuples (obj st c) \<union> form_tuples (obj st d),
              app_tuples := app_tuples (obj st c) \<union> app_tuples (obj st d)\<rparr>"
    by blast
  have ap: "append_ec c ft at st' = Inr st'"
    using c(2) d(2) by (simp add: append_ec_def s(8))
  have r: "add_keys ft at st = Inr (st', c)"
    using f a ne s(1) ap by (simp add: add_keys_def get_form_def get_app_def)
  have kc: "keys_of (obj st' c) = keys_of (obj st c) \<union> keys_of (obj st d)"
    by (auto simp: s(8) keys_of_def)
  have cm: "comember st' = comember st \<union>
      (keys_of (obj st c) \<union> keys_of (obj st d)) \<times> (keys_of (obj st c) \<union> keys_of (obj st d))"
    by (rule comember_grow[OF s(3) c(1) _ kc]) (use ne' in \<open>auto simp: s(7)\<close>)
  have n: "neighbours ft at st = keys_of (obj st c) \<union> keys_of (obj st d)"
    using c d by (auto simp: neighbours_def Image_form_Some[OF inv f] Image_app_Some[OF inv a])
  have e: "\<And>p. eq_id (obj st' p) = eq_id (obj st p)"
    using s(7,8) by (case_tac "p = c") simp_all
  have ids: "ids_kept st st' \<and> (ids_unique st \<longrightarrow> ids_unique st')"
    by (rule ids_same[OF s(6) s(5) e])
  from s(2) have fo': "form_ok st'" and ao': "app_ok st'" by (simp_all add: registry_inv_def)
  have cl: "c \<in> live st'" using c(1) ne' s(3) by simp
  have m1: "form_tuple_classes st' ft = Some c"
    using form_okD[OF fo', of ft c] cl c(2) by (simp add: s(8))
  have m2: "app_tuple_classes st' at = Some c"
    using app_okD[OF ao', of at c] cl d(2) by (simp add: s(8))
  show ?thesis using r s(2,3,4,8) m1 m2 cm ids by (simp add: add_post_def n)
qed

lemma add_keys_spec:
  assumes inv: "registry_inv st"
  shows "\<exists>st' c. add_keys ft at st = Inr (st', c) \<and> add_post ft at st st' c"
proof (cases "form_tuple_classes st ft")
  case None
  note f = this
  show ?thesis
  proof (cases "app_tuple_classes st at")
    case None
    from add_post_new[OF inv f None] show ?thesis by blast
  next
    case (Some d)
    from add_post_form[OF inv f Some] show ?thesis by blast
  qed
next
  case (Some c)
  note f = this
  show ?thesis
  proof (cases "app_tuple_classes st at")
    case None
    from add_post_app[OF inv f None] show ?thesis by blast
  next
    case (Some d)
    show ?thesis
    proof (cases "d = c")
      case True
      with add_post_same[OF inv f] Some show ?thesis by blast
    next
      case False
      from add_post_merge[OF inv f Some False] show ?thesis by blast
    qed
  qed
qed

subsection \<open>The sample rows and registries\<close>

lemma ex_row1_keys: "form_tuple ex_row1 = Inr ex_f1" "app_tuple ex_row1 = Inr ex_a1"
  by code_simp+

lemma ex_row2_keys: "form_tuple ex_row2 = Inr ex_f2" "app_tuple ex_row2 = Inr ex_a2"
  by code_simp+

lemma ex_row3_keys: "form_tuple ex_row3 = Inr ex_f1" "app_tuple ex_row3 = Inr ex_a2"
  by code_simp+

lemma ex_keys_distinct: "ex_f1 \<noteq> ex_f2" "ex_a1 \<noteq> ex_a2"
  by (simp_all add: ex_f1_def ex_f2_def ex_a1_def ex_a2_def)

lemma empty_registry_inv: "registry_inv empty_registry"
  by (simp add: registry_inv_def table_ok_def form_ok_def app_ok_def finite_ok_def live_def
      empty_registry_def)

lemma empty_registry_ids: "ids_unique empty_registry"
  by (simp add: ids_unique_def empty_registry_def)


lemma two_class_registry_live: "live two_class_registry = {0, 1}"
  by (auto simp: live_def two_class_registry_def)

lemma two_class_registry_obj:
  "obj two_class_registry 0 = \<lparr>form_tuples = {ex_f1}, app_tuples = {ex_a1}, eq_id = Some 0\<rparr>"
  "obj two_class_registry 1 = \<lparr>form_tuples = {ex_f2}, app_tuples = {ex_a2}, eq_id = Some 1\<rparr>"
  "obj two_class_registry (Suc 0) = \<lparr>form_tuples = {ex_f2}, app_tuples = {ex_a2}, eq_id = Some 1\<rparr>"
  by (simp_all add: obj_def two_class_registry_def)

lemma two_class_registry_maps:
  "form_tuple_classes two_class_registry = [ex_f1 \<mapsto> 0, ex_f2 \<mapsto> 1]"
  "app_tuple_classes two_class_registry = [ex_a1 \<mapsto> 0, ex_a2 \<mapsto> 1]"
  by (simp_all add: two_class_registry_def)

lemma merged_registry_maps:
  "form_tuple_classes merged_registry = [ex_f1 \<mapsto> 0, ex_f2 \<mapsto> 0]"
  "app_tuple_classes merged_registry = [ex_a1 \<mapsto> 0, ex_a2 \<mapsto> 0]"
  by (simp_all add: merged_registry_def)

lemma two_class_registry_inv: "registry_inv two_class_registry"
proof -
  have t: "table_ok two_class_registry"
    using two_class_registry_obj
    by (simp add: table_ok_def two_class_registry_def)
  have f: "form_ok two_class_registry"
    unfolding form_ok_def two_class_registry_live
  proof (intro allI)
    fix ft and p :: nat
    consider "p = 0" | "p = 1" | "p \<notin> {0, 1}" by blast
    then show "(form_tuple_classes two_class_registry ft = Some p) =
        (p \<in> {0, 1} \<and> ft \<in> form_tuples (obj two_class_registry p))"
      using ex_keys_distinct
      by cases (auto simp: two_class_registry_obj two_class_registry_maps)
  qed
  have a: "app_ok two_class_registry"
    unfolding app_ok_def two_class_registry_live
  proof (intro allI)
    fix at and p :: nat
    consider "p = 0" | "p = 1" | "p \<notin> {0, 1}" by blast
    then show "(app_tuple_classes two_class_registry at = Some p) =
        (p \<in> {0, 1} \<and> at \<in> app_tuples (obj two_class_registry p))"
      using ex_keys_distinct
      by cases (auto simp: two_class_registry_obj two_class_registry_maps)
  qed
  have fi: "finite_ok two_class_registry"
    unfolding finite_ok_def two_class_registry_live
    using two_class_registry_obj by simp
  show ?thesis using t f a fi by (simp add: registry_inv_def)
qed

lemma merged_registry_live: "live merged_registry = {0}"
  by (auto simp: live_def merged_registry_def)

lemma merged_registry_obj:
  "obj merged_registry 0 = \<lparr>form_tuples = {ex_f1, ex_f2}, app_tuples = {ex_a1, ex_a2}, eq_id = Some 0\<rparr>"
  "obj merged_registry 1 = \<lparr>form_tuples = {ex_f2}, app_tuples = {ex_a2}, eq_id = Some 1\<rparr>"
  "obj merged_registry (Suc 0) = \<lparr>form_tuples = {ex_f2}, app_tuples = {ex_a2}, eq_id = Some 1\<rparr>"
  by (simp_all add: obj_def merged_registry_def)

lemma merged_registry_inv: "registry_inv merged_registry"
proof -
  have t: "table_ok merged_registry"
    using merged_registry_obj
    by (simp add: table_ok_def merged_registry_def)
  have f: "form_ok merged_registry"
    unfolding form_ok_def merged_registry_live
  proof (intro allI)
    fix ft and p :: nat
    consider "p = 0" | "p = 1" | "p \<notin> {0, 1}" by blast
    then show "(form_tuple_classes merged_registry ft = Some p) =
        (p \<in> {0} \<and> ft \<in> form_tuples (obj merged_registry p))"
      using ex_keys_distinct
      by cases (auto simp: merged_registry_obj merged_registry_maps)
  qed
  have a: "app_ok merged_registry"
    unfolding app_ok_def merged_registry_live
  proof (intro allI)
    fix at and p :: nat
    consider "p = 0" | "p = 1" | "p \<notin> {0, 1}" by blast
    then show "(app_tuple_classes merged_registry at = Some p) =
        (p \<in> {0} \<and> at \<in> app_tuples (obj merged_registry p))"
      using ex_keys_distinct
      by cases (auto simp: merged_registry_obj merged_registry_maps)
  qed
  have fi: "finite_ok merged_registry"
    unfolding finite_ok_def merged_registry_live
    using merged_registry_obj by simp
  show ?thesis using t f a fi by (simp add: registry_inv_def)
qed

lemma merged_registry_ids: "ids_unique merged_registry"
  unfolding ids_unique_def
  using merged_registry_obj
  by (auto simp: merged_registry_def less_Suc_eq numeral_2_eq_2)

subsection \<open>Merging two classes\<close>

lemma distinct_set_single:
  assumes "distinct xs" "set xs = {x}"
  shows "xs = [x]"
proof (cases xs)
  case Nil
  with assms(2) show ?thesis by simp
next
  case (Cons y ys)
  with assms have y: "y = x" and n: "y \<notin> set ys" and s: "set ys \<subseteq> {x}" by auto
  from n s y have "ys = []" by (cases ys) auto
  with Cons y show ?thesis by simp
qed

lemma add_row:
  "form_tuple r = Inr ft \<Longrightarrow> app_tuple r = Inr at \<Longrightarrow> add r st = add_keys ft at st"
  by (simp add: add_def)

lemma add_InrD:
  "add r st = Inr x \<Longrightarrow>
     \<exists>ft at. form_tuple r = Inr ft \<and> app_tuple r = Inr at \<and> add_keys ft at st = Inr x"
  by (auto simp: add_def split: sum.splits)

text \<open>
  C3. In a registry whose live classes are exactly two, one with the members f1 and a1 and
  one with the members f2 and a2, adding a row with the keys f1 and a2 succeeds and
  returns the class of f1; afterwards that class is the only live class, its formulation
  keys are f1 and f2 and its application keys are a1 and a2, and the other class is no
  longer live.
\<close>

theorem add_merges_two_classes:
  assumes inv: "registry_inv st"
    and two: "live st = {p1, p2}" "p1 \<noteq> p2"
    and c1: "form_tuples (obj st p1) = {f1}" "app_tuples (obj st p1) = {a1}"
    and c2: "form_tuples (obj st p2) = {f2}" "app_tuples (obj st p2) = {a2}"
    and r: "form_tuple r = Inr f1" "app_tuple r = Inr a2"
  shows "\<exists>st'. add r st = Inr (st', p1) \<and> all_classes st' = [p1] \<and>
           form_tuples (obj st' p1) = {f1, f2} \<and> app_tuples (obj st' p1) = {a1, a2} \<and>
           p2 \<notin> live st' \<and> registry_inv st'"
proof -
  from inv have t: "table_ok st" and fo: "form_ok st" and ao: "app_ok st"
    by (simp_all add: registry_inv_def)
  have f: "form_tuple_classes st f1 = Some p1"
    using form_okD[OF fo, of f1 p1] two(1) c1(1) by simp
  have a: "app_tuple_classes st a2 = Some p2"
    using app_okD[OF ao, of a2 p2] two(1) c2(2) by simp
  from add_post_merge[OF inv f a] two(2) obtain st' where s:
    "add_keys f1 a2 st = Inr (st', p1)" "add_post f1 a2 st st' p1" "live st' = live st - {p2}"
    "eq_classes st' = filter (\<lambda>(k, p). p \<noteq> p2) (eq_classes st)"
    "obj st' p1 = (obj st p1)\<lparr>
              form_tuples := form_tuples (obj st p1) \<union> form_tuples (obj st p2),
              app_tuples := app_tuples (obj st p1) \<union> app_tuples (obj st p2)\<rparr>"
    by blast
  from s(2) have inv': "registry_inv st'" by (simp add: add_post_def)
  then have "distinct (map snd (eq_classes st'))" by (simp add: registry_inv_def table_ok_def)
  then have d: "distinct (all_classes st')" by (simp add: all_classes_def)
  have "set (all_classes st') = {p1}"
    using s(3) two by (auto simp: all_classes_def live_def)
  with d have one: "all_classes st' = [p1]" by (rule distinct_set_single)
  have "add r st = Inr (st', p1)" using s(1) r by (simp add: add_row)
  moreover have "form_tuples (obj st' p1) = {f1, f2}" "app_tuples (obj st' p1) = {a1, a2}"
    using c1 c2 by (auto simp: s(5))
  moreover have "p2 \<notin> live st'" using s(3) by simp
  ultimately show ?thesis using one inv' by blast
qed

theorem add_merges_two_classes_witness:
  "\<exists>st'. add ex_row3 two_class_registry = Inr (st', 0) \<and> all_classes st' = [0] \<and>
         form_tuples (obj st' 0) = {ex_f1, ex_f2} \<and> app_tuples (obj st' 0) = {ex_a1, ex_a2} \<and>
         1 \<notin> live st' \<and> registry_inv st'"
proof -
  have l: "live two_class_registry = {0, 1}" "(0::nat) \<noteq> 1"
    by (auto simp: live_def two_class_registry_def)
  have o: "form_tuples (obj two_class_registry 0) = {ex_f1}"
      "app_tuples (obj two_class_registry 0) = {ex_a1}"
      "form_tuples (obj two_class_registry 1) = {ex_f2}"
      "app_tuples (obj two_class_registry 1) = {ex_a2}"
    by (simp_all add: obj_def two_class_registry_def)
  show ?thesis
    by (rule add_merges_two_classes[OF two_class_registry_inv l o ex_row3_keys])
qed

subsection \<open>Adding a row twice\<close>

text \<open>
  C4. When a row has been added to a registry that satisfies the invariant, adding the
  same row again returns the same class and leaves the registry as it is (so no
  membership set and no count of classes changes), and \<open>get\<close> of either key of the
  row is that class, not \<^verbatim>\<open>None\<close>.
\<close>

theorem add_twice_unchanged:
  assumes inv: "registry_inv st" and r: "add r st = Inr (st1, c)"
  shows "add r st1 = Inr (st1, c) \<and>
         (\<exists>ft at. form_tuple r = Inr ft \<and> app_tuple r = Inr at \<and>
                  get_form st1 ft = Some c \<and> get_app st1 at = Some c)"
proof -
  from add_InrD[OF r] obtain ft at where k: "form_tuple r = Inr ft" "app_tuple r = Inr at"
    and a: "add_keys ft at st = Inr (st1, c)" by blast
  from add_keys_spec[OF inv, of ft at] a have p: "add_post ft at st st1 c" by auto
  then have inv1: "registry_inv st1" and f: "form_tuple_classes st1 ft = Some c"
    and g: "app_tuple_classes st1 at = Some c"
    by (simp_all add: add_post_def)
  from add_post_same[OF inv1 f g] have "add_keys ft at st1 = Inr (st1, c)" by simp
  then have "add r st1 = Inr (st1, c)" using k by (simp add: add_row)
  then show ?thesis using k f g by (auto simp: get_form_def get_app_def)
qed

theorem add_twice_unchanged_witness:
  "\<exists>st1. add ex_row1 empty_registry = Inr (st1, 0) \<and> add ex_row1 st1 = Inr (st1, 0) \<and>
         get_form st1 ex_f1 = Some 0 \<and> get_app st1 ex_a1 = Some 0"
proof -
  have n: "form_tuple_classes empty_registry ex_f1 = None"
      "app_tuple_classes empty_registry ex_a1 = None"
    by (simp_all add: empty_registry_def)
  from add_post_new[OF empty_registry_inv n] obtain st1 where
    "add_keys ex_f1 ex_a1 empty_registry = Inr (st1, 0)"
    by (auto simp: empty_registry_def)
  then have a: "add ex_row1 empty_registry = Inr (st1, 0)"
    by (simp add: add_row[OF ex_row1_keys])
  from add_twice_unchanged[OF empty_registry_inv a] a show ?thesis
    by (auto simp: ex_row1_keys)
qed

subsection \<open>The invariants are preserved\<close>

lemma init_InrD:
  assumes r: "EquivalenceClass_init fts ats arg st = Inr (st', c)"
  shows "distinct fts \<and> distinct ats \<and> set fts \<inter> dom (form_tuple_classes st) = {} \<and>
         set ats \<inter> dom (app_tuple_classes st) = {} \<and>
         (case arg of None \<Rightarrow> next_eq_id st | Some j \<Rightarrow> j) \<notin> fst ` set (eq_classes st)"
proof -
  define self where "self = length (heap st)"
  define st0 where "st0 = st\<lparr>heap := heap st @ [\<lparr>form_tuples = {}, app_tuples = {}, eq_id = None\<rparr>]\<rparr>"
  from r obtain st1 st2 where s1: "add_form_tuples self fts st0 = Inr st1"
    and s2: "add_app_tuples self ats st1 = Inr st2"
    unfolding EquivalenceClass_init_def Let_def self_def[symmetric] st0_def[symmetric]
    by (auto split: sum.splits)
  have lt0: "self < length (heap st0)" by (simp add: st0_def self_def)
  from add_form_tuples_Inr[OF s1] have f: "distinct fts" "set fts \<inter> dom (form_tuple_classes st) = {}"
    by (simp_all add: st0_def)
  from add_form_tuples_spec[OF lt0 f(1)] f(2) s1
  have e1: "app_tuple_classes st1 = app_tuple_classes st" "eq_classes st1 = eq_classes st"
      "next_eq_id st1 = next_eq_id st" "length (heap st1) = length (heap st0)"
    by (auto simp: st0_def)
  from add_app_tuples_Inr[OF s2] have a: "distinct ats" "set ats \<inter> dom (app_tuple_classes st) = {}"
    by (simp_all add: e1)
  have lt1: "self < length (heap st1)" using lt0 e1(4) by simp
  from add_app_tuples_spec[OF lt1 a(1)] a(2) s2
  have e2: "eq_classes st2 = eq_classes st" "next_eq_id st2 = next_eq_id st"
    by (auto simp: e1)
  have "(case arg of None \<Rightarrow> next_eq_id st | Some j \<Rightarrow> j) \<notin> fst ` set (eq_classes st)"
    using r s1 s2 e2
    unfolding EquivalenceClass_init_def Let_def self_def[symmetric] st0_def[symmetric]
    by (cases arg) (auto split: if_splits)
  with f a show ?thesis by simp
qed

lemma init_inv:
  assumes inv: "registry_inv st" and r: "EquivalenceClass_init fts ats arg st = Inr (st', c)"
  shows "registry_inv st' \<and> ids_kept st st' \<and>
         (case arg of None \<Rightarrow> next_eq_id st | Some j \<Rightarrow> j) \<notin> fst ` set (eq_classes st) \<and>
         (arg = None \<longrightarrow> ids_unique st \<longrightarrow> ids_unique st')"
proof -
  define i where "i = (case arg of None \<Rightarrow> next_eq_id st | Some j \<Rightarrow> j)"
  from init_InrD[OF r] have p: "distinct fts" "distinct ats"
      "set fts \<inter> dom (form_tuple_classes st) = {}" "set ats \<inter> dom (app_tuple_classes st) = {}"
      "i \<notin> fst ` set (eq_classes st)"
    by (simp_all add: i_def)
  from init_spec[OF inv p(1,2,3,4) i_def p(5)] r have s: "registry_inv st'"
     "heap st' = heap st @ [\<lparr>form_tuples = set fts, app_tuples = set ats, eq_id = Some i\<rparr>]"
     "next_eq_id st' = (case arg of None \<Rightarrow> next_eq_id st + 1 | Some j \<Rightarrow> max (next_eq_id st) (j + 1))"
    by auto
  have k: "ids_kept st st'"
    by (auto simp: ids_kept_def s(2,3) obj_def nth_append split: option.splits)
  have u: "arg = None \<longrightarrow> ids_unique st \<longrightarrow> ids_unique st'"
  proof
    assume n: "arg = None"
    have "ids_kept st st' \<and> (ids_unique st \<longrightarrow> ids_unique st')"
      by (rule ids_new[OF s(2)]) (simp_all add: i_def n s(3))
    then show "ids_unique st \<longrightarrow> ids_unique st'" by simp
  qed
  show ?thesis using s(1) k p(5) u by (simp add: i_def)
qed

lemma append_ec_inv:
  assumes inv: "registry_inv st" and l: "self \<in> live st" and r: "append_ec self ft at st = Inr st'"
  shows "registry_inv st' \<and> ids_kept st st' \<and> (ids_unique st \<longrightarrow> ids_unique st') \<and>
         eq_classes st' = eq_classes st"
proof -
  have "st' = st \<or> add_form_tuple self ft st = Inr st' \<or> add_app_tuple self at st = Inr st'"
    using r by (simp add: append_ec_def split: if_splits)
  then consider (same) "st' = st"
    | (form) "add_form_tuple self ft st = Inr st'"
    | (app) "add_app_tuple self at st = Inr st'"
    by blast
  then show ?thesis
  proof cases
    case same
    then show ?thesis using inv by (simp add: ids_kept_def)
  next
    case form
    then have n: "form_tuple_classes st ft = None"
      by (auto simp: add_form_tuple_def domIff split: if_splits)
    from add_form_tuple_inv[OF inv l n] form have s: "registry_inv st'"
      "eq_classes st' = eq_classes st" "next_eq_id st' = next_eq_id st"
      "length (heap st') = length (heap st)"
      "\<And>p. p \<noteq> self \<Longrightarrow> obj st' p = obj st p"
      "obj st' self = (obj st self)\<lparr>form_tuples := insert ft (form_tuples (obj st self))\<rparr>"
      by auto
    have e: "\<And>p. eq_id (obj st' p) = eq_id (obj st p)"
      using s(5,6) by (case_tac "p = self") simp_all
    from ids_same[OF s(4) s(3) e] s(1,2) show ?thesis by simp
  next
    case app
    then have n: "app_tuple_classes st at = None"
      by (auto simp: add_app_tuple_def domIff split: if_splits)
    from add_app_tuple_inv[OF inv l n] app have s: "registry_inv st'"
      "eq_classes st' = eq_classes st" "next_eq_id st' = next_eq_id st"
      "length (heap st') = length (heap st)"
      "\<And>p. p \<noteq> self \<Longrightarrow> obj st' p = obj st p"
      "obj st' self = (obj st self)\<lparr>app_tuples := insert at (app_tuples (obj st self))\<rparr>"
      by auto
    have e: "\<And>p. eq_id (obj st' p) = eq_id (obj st p)"
      using s(5,6) by (case_tac "p = self") simp_all
    from ids_same[OF s(4) s(3) e] s(1,2) show ?thesis by simp
  qed
qed

lemma merge_inv_ids:
  assumes inv: "registry_inv st" and l: "self \<in> live st" "other \<in> live st" "self \<noteq> other"
    and r: "merge self other st = Inr st'"
  shows "registry_inv st' \<and> ids_kept st st' \<and> (ids_unique st \<longrightarrow> ids_unique st') \<and>
         other \<notin> live st' \<and> other \<notin> ran (form_tuple_classes st') \<and>
         other \<notin> ran (app_tuple_classes st')"
proof -
  from merge_inv[OF inv l] r have s: "registry_inv st'" "live st' = live st - {other}"
    "next_eq_id st' = next_eq_id st" "length (heap st') = length (heap st)"
    "\<And>p. p \<noteq> self \<Longrightarrow> obj st' p = obj st p"
    "obj st' self = (obj st self)\<lparr>
              form_tuples := form_tuples (obj st self) \<union> form_tuples (obj st other),
              app_tuples := app_tuples (obj st self) \<union> app_tuples (obj st other)\<rparr>"
    by auto
  have e: "\<And>p. eq_id (obj st' p) = eq_id (obj st p)"
    using s(5,6) by (case_tac "p = self") simp_all
  from s(1) have fo: "form_ok st'" and ao: "app_ok st'" by (simp_all add: registry_inv_def)
  have nl: "other \<notin> live st'" using s(2) by simp
  have "other \<notin> ran (form_tuple_classes st')"
    using form_okD[OF fo, of _ other] nl by (auto simp: ran_def)
  moreover have "other \<notin> ran (app_tuple_classes st')"
    using app_okD[OF ao, of _ other] nl by (auto simp: ran_def)
  ultimately show ?thesis using ids_same[OF s(4) s(3) e] s(1) nl by simp
qed

lemma add_inv:
  assumes inv: "registry_inv st" and r: "add r st = Inr (st', c)"
  shows "registry_inv st' \<and> ids_kept st st' \<and> (ids_unique st \<longrightarrow> ids_unique st')"
proof -
  from add_InrD[OF r] obtain ft at where a: "add_keys ft at st = Inr (st', c)" by blast
  from add_keys_spec[OF inv, of ft at] a have "add_post ft at st st' c" by auto
  then show ?thesis by (simp add: add_post_def)
qed

lemma ex3_distinct: "ex_f3 \<noteq> ex_f1" "ex_f3 \<noteq> ex_f2" "ex_a3 \<noteq> ex_a1" "ex_a3 \<noteq> ex_a2"
  by (simp_all add: ex_f1_def ex_f2_def ex_f3_def ex_a1_def ex_a2_def ex_a3_def)

lemma add_all_append_one:
  "add_all (rs @ [r]) st =
     (case add_all rs st of Inl e \<Rightarrow> Inl e
      | Inr st1 \<Rightarrow> (case add r st1 of Inl e \<Rightarrow> Inl e | Inr (st2, c) \<Rightarrow> Inr st2))"
  by (induction rs arbitrary: st) (auto split: sum.splits)

lemma add_all_two: "add_all [ex_row1, ex_row2] empty_registry = Inr two_class_registry"
  using ex_keys_distinct
  by (simp add: add_row[OF ex_row1_keys] add_row[OF ex_row2_keys] add_keys_def get_form_def
      get_app_def EquivalenceClass_init_def add_form_tuple_def add_app_tuple_def Let_def
      set_obj_def obj_def empty_registry_def two_class_registry_def)

lemma add_merged: "add ex_row3 two_class_registry = Inr (merged_registry, 0)"
  using ex_keys_distinct
  by (auto simp: add_row[OF ex_row3_keys] add_keys_def get_form_def
      get_app_def merge_def append_ec_def Let_def fun_eq_iff
      set_obj_def obj_def two_class_registry_def merged_registry_def)

lemma init_reuse:
  "EquivalenceClass_init [ex_f3] [ex_a3] (Some 1) merged_registry = Inr (reused_registry, 2)"
  using ex3_distinct
  by (simp add: EquivalenceClass_init_def add_form_tuple_def add_app_tuple_def Let_def
      set_obj_def obj_def merged_registry_def reused_registry_def numeral_2_eq_2)

lemma reused_not_unique: "\<not> ids_unique reused_registry"
proof
  assume "ids_unique reused_registry"
  then have "\<forall>p<3. \<forall>q<3. eq_id (obj reused_registry p) = eq_id (obj reused_registry q) \<longrightarrow> p = q"
    by (simp add: ids_unique_def reused_registry_def)
  from this[rule_format, of 1 2] show False by (simp add: obj_def reused_registry_def)
qed

lemma two_class_registry_ids: "ids_unique two_class_registry"
  unfolding ids_unique_def
  using two_class_registry_obj
  by (auto simp: two_class_registry_def less_Suc_eq numeral_2_eq_2)

text \<open>
  C2, as the code has it. From a registry that satisfies the invariant (\<open>registry_inv\<close>:
  the key dictionaries and the member sets of the live classes agree, so a key is in at
  most one live class and no entry refers to an object that is not live) and in which
  no two class objects ever made share an id (\<open>ids_unique\<close>):
  \<^item> a constructor call without an id, \<open>append\<close> on a live class, \<open>merge\<close> of two
    different live classes and \<open>add\<close>, when they return, return a registry with the
    same two properties in which every object has kept its id; after \<open>merge\<close> the
    absorbed class is not live and no dictionary entry refers to it;
  \<^item> a constructor call with a given id, when it returns, returns a registry that
    satisfies the invariant and in which every object has kept its id; the given id is
    not that of a live class, but it may be that of an absorbed one.
\<close>

theorem registry_invariants_preserved:
  assumes inv: "registry_inv st" and ids: "ids_unique st"
  shows "(\<forall>fts ats st' c. EquivalenceClass_init fts ats None st = Inr (st', c) \<longrightarrow>
            registry_inv st' \<and> ids_unique st' \<and> ids_kept st st') \<and>
         (\<forall>fts ats j st' c. EquivalenceClass_init fts ats (Some j) st = Inr (st', c) \<longrightarrow>
            registry_inv st' \<and> ids_kept st st' \<and> j \<notin> fst ` set (eq_classes st)) \<and>
         (\<forall>self ft at st'. self \<in> live st \<longrightarrow> append_ec self ft at st = Inr st' \<longrightarrow>
            registry_inv st' \<and> ids_unique st' \<and> ids_kept st st') \<and>
         (\<forall>self other st'. self \<in> live st \<longrightarrow> other \<in> live st \<longrightarrow> self \<noteq> other \<longrightarrow>
            merge self other st = Inr st' \<longrightarrow>
            registry_inv st' \<and> ids_unique st' \<and> ids_kept st st' \<and> other \<notin> live st' \<and>
            other \<notin> ran (form_tuple_classes st') \<and> other \<notin> ran (app_tuple_classes st')) \<and>
         (\<forall>r st' c. add r st = Inr (st', c) \<longrightarrow>
            registry_inv st' \<and> ids_unique st' \<and> ids_kept st st')"
proof (intro conjI allI impI)
  fix fts ats st' c
  assume "EquivalenceClass_init fts ats None st = Inr (st', c)"
  from init_inv[OF inv this] ids
  show "registry_inv st'" "ids_unique st'" "ids_kept st st'" by simp_all
next
  fix fts ats j st' c
  assume "EquivalenceClass_init fts ats (Some j) st = Inr (st', c)"
  from init_inv[OF inv this]
  show "registry_inv st'" "ids_kept st st'" "j \<notin> fst ` set (eq_classes st)" by simp_all
next
  fix self ft at st'
  assume "self \<in> live st" "append_ec self ft at st = Inr st'"
  from append_ec_inv[OF inv this] ids
  show "registry_inv st'" "ids_unique st'" "ids_kept st st'" by simp_all
next
  fix self other st'
  assume "self \<in> live st" "other \<in> live st" "self \<noteq> other" "merge self other st = Inr st'"
  from merge_inv_ids[OF inv this] ids
  show "registry_inv st'" "ids_unique st'" "ids_kept st st'" "other \<notin> live st'"
    "other \<notin> ran (form_tuple_classes st')" "other \<notin> ran (app_tuple_classes st')" by simp_all
next
  fix r st' c
  assume "add r st = Inr (st', c)"
  from add_inv[OF inv this] ids
  show "registry_inv st'" "ids_unique st'" "ids_kept st st'" by simp_all
qed

text \<open>
  The claim as stated fails for the constructor with a given id: after the three sample
  rows the class with id 1 has been absorbed, and a class constructed with id 1 is a
  second object with that id.
\<close>

theorem class_id_reused_counterexample:
  "add_all [ex_row1, ex_row2, ex_row3] empty_registry = Inr merged_registry \<and>
   registry_inv merged_registry \<and> ids_unique merged_registry \<and>
   EquivalenceClass_init [ex_f3] [ex_a3] (Some 1) merged_registry = Inr (reused_registry, 2) \<and>
   eq_id (obj reused_registry 1) = Some 1 \<and> eq_id (obj reused_registry 2) = Some 1 \<and>
   \<not> ids_unique reused_registry"
proof -
  have "add_all ([ex_row1, ex_row2] @ [ex_row3]) empty_registry = Inr merged_registry"
    by (simp only: add_all_append_one add_all_two add_merged sum.case prod.case)
  then have "add_all [ex_row1, ex_row2, ex_row3] empty_registry = Inr merged_registry"
    by simp
  moreover have "eq_id (obj reused_registry 1) = Some 1" "eq_id (obj reused_registry 2) = Some 1"
    by (simp_all add: obj_def reused_registry_def)
  ultimately show ?thesis
    using merged_registry_inv merged_registry_ids init_reuse reused_not_unique by simp
qed

theorem registry_invariants_preserved_witness:
  "registry_inv two_class_registry \<and> ids_unique two_class_registry \<and>
   (\<exists>st'. EquivalenceClass_init [ex_f3] [ex_a3] None two_class_registry = Inr (st', 2) \<and>
      registry_inv st' \<and> ids_unique st' \<and> ids_kept two_class_registry st') \<and>
   (\<exists>st'. EquivalenceClass_init [ex_f3] [ex_a3] (Some 7) two_class_registry = Inr (st', 2) \<and>
      registry_inv st' \<and> ids_kept two_class_registry st' \<and>
      7 \<notin> fst ` set (eq_classes two_class_registry)) \<and>
   (\<exists>st'. 0 \<in> live two_class_registry \<and> append_ec 0 ex_f1 ex_a3 two_class_registry = Inr st' \<and>
      registry_inv st' \<and> ids_unique st' \<and> ids_kept two_class_registry st') \<and>
   (\<exists>st'. 0 \<in> live two_class_registry \<and> 1 \<in> live two_class_registry \<and> (0::nat) \<noteq> 1 \<and>
      merge 0 1 two_class_registry = Inr st' \<and>
      registry_inv st' \<and> ids_unique st' \<and> ids_kept two_class_registry st' \<and> 1 \<notin> live st' \<and>
      1 \<notin> ran (form_tuple_classes st') \<and> 1 \<notin> ran (app_tuple_classes st')) \<and>
   (add ex_row3 two_class_registry = Inr (merged_registry, 0) \<and>
      registry_inv merged_registry \<and> ids_unique merged_registry \<and>
      ids_kept two_class_registry merged_registry)"
proof -
  note inv = two_class_registry_inv and ids = two_class_registry_ids
  note P = registry_invariants_preserved[OF inv ids]
  have l: "0 \<in> live two_class_registry" "1 \<in> live two_class_registry"
    by (simp_all add: two_class_registry_live)
  have un: "set [ex_f3] \<inter> dom (form_tuple_classes two_class_registry) = {}"
      "set [ex_a3] \<inter> dom (app_tuple_classes two_class_registry) = {}"
    using ex3_distinct by (auto simp: two_class_registry_maps)
  have h: "length (heap two_class_registry) = 2" by (simp add: two_class_registry_def)
  from init_spec[OF inv _ _ un, of "next_eq_id two_class_registry" None]
    next_id_fresh[of two_class_registry] inv
  obtain s1 where s1: "EquivalenceClass_init [ex_f3] [ex_a3] None two_class_registry = Inr (s1, 2)"
    by (auto simp: h registry_inv_def)
  have f7: "7 \<notin> fst ` set (eq_classes two_class_registry)"
    by (simp add: two_class_registry_def)
  from init_spec[OF inv _ _ un, of 7 "Some 7"] f7
  obtain s2 where s2: "EquivalenceClass_init [ex_f3] [ex_a3] (Some 7) two_class_registry = Inr (s2, 2)"
    by (auto simp: h)
  have a3: "app_tuple_classes two_class_registry ex_a3 = None"
    using ex3_distinct by (simp add: two_class_registry_maps)
  from add_app_tuple_inv[OF inv l(1) a3]
  obtain s3 where "add_app_tuple 0 ex_a3 two_class_registry = Inr s3" by blast
  then have s3: "append_ec 0 ex_f1 ex_a3 two_class_registry = Inr s3"
    using ex3_distinct by (simp add: append_ec_def two_class_registry_obj)
  from merge_inv[OF inv l] obtain s4 where s4: "merge 0 1 two_class_registry = Inr s4"
    by auto
  have c1: "registry_inv s1 \<and> ids_unique s1 \<and> ids_kept two_class_registry s1"
    using P s1 by blast
  have c2: "registry_inv s2 \<and> ids_kept two_class_registry s2"
    using P s2 by blast
  have c3: "registry_inv s3 \<and> ids_unique s3 \<and> ids_kept two_class_registry s3"
    using P s3 l(1) by blast
  have c4: "registry_inv s4 \<and> ids_unique s4 \<and> ids_kept two_class_registry s4 \<and> 1 \<notin> live s4 \<and>
      1 \<notin> ran (form_tuple_classes s4) \<and> 1 \<notin> ran (app_tuple_classes s4)"
    using P s4 l by (metis zero_neq_one)
  have c5: "registry_inv merged_registry \<and> ids_unique merged_registry \<and>
      ids_kept two_class_registry merged_registry"
    using P add_merged by blast
  show ?thesis
    using inv ids s1 c1 s2 c2 f7 s3 c3 s4 c4 c5 l add_merged by simp
qed

subsection \<open>The order of the rows does not matter\<close>

lemma comember_sym: "sym (comember st)"
  by (auto simp: sym_def comember_iff)

lemma comember_trans:
  assumes inv: "registry_inv st"
  shows "trans (comember st)"
proof (rule transI)
  fix k1 k2 k3
  assume "(k1, k2) \<in> comember st" "(k2, k3) \<in> comember st"
  then obtain p q where p: "p \<in> live st" "k1 \<in> keys_of (obj st p)" "k2 \<in> keys_of (obj st p)"
    and q: "q \<in> live st" "k2 \<in> keys_of (obj st q)" "k3 \<in> keys_of (obj st q)"
    by (auto simp: comember_iff)
  from inv have fo: "form_ok st" and ao: "app_ok st" by (simp_all add: registry_inv_def)
  have "p = q"
  proof (cases k2)
    case (Inl ft)
    with p(3) q(2) form_uniq[OF fo p(1) q(1), of ft] show ?thesis by simp
  next
    case (Inr at)
    with p(3) q(2) app_uniq[OF ao p(1) q(1), of at] show ?thesis by simp
  qed
  with p q show "(k1, k3) \<in> comember st" by (auto simp: comember_iff)
qed

lemma trancl_absorb: "(R\<^sup>+ \<union> S)\<^sup>+ = (R \<union> S)\<^sup>+"
proof
  have "R\<^sup>+ \<union> S \<subseteq> (R \<union> S)\<^sup>+"
    by (meson Un_least Un_upper1 Un_upper2 r_into_trancl' subsetI trancl_mono)
  then have "(R\<^sup>+ \<union> S)\<^sup>+ \<subseteq> ((R \<union> S)\<^sup>+)\<^sup>+" by (rule trancl_mono_subset)
  then show "(R\<^sup>+ \<union> S)\<^sup>+ \<subseteq> (R \<union> S)\<^sup>+" by simp
next
  have "R \<union> S \<subseteq> R\<^sup>+ \<union> S" by auto
  then show "(R \<union> S)\<^sup>+ \<subseteq> (R\<^sup>+ \<union> S)\<^sup>+" by (rule trancl_mono_subset)
qed

lemma trancl_add_pair:
  fixes x y :: 'a
  assumes s: "sym E" and t: "trans E"
  defines "N \<equiv> {x, y} \<union> E `` {x} \<union> E `` {y}"
  shows "(E \<union> {x, y} \<times> {x, y})\<^sup>+ = E \<union> N \<times> N"
proof
  have inN: "\<And>a b. (a, b) \<in> E \<Longrightarrow> b \<in> N \<Longrightarrow> a \<in> N"
  proof -
    fix a b assume ab: "(a, b) \<in> E" and b: "b \<in> N"
    from ab s have ba: "(b, a) \<in> E" by (auto dest: symD)
    from b consider "b = x" | "b = y" | "(x, b) \<in> E" | "(y, b) \<in> E" by (auto simp: N_def)
    then show "a \<in> N"
    proof cases
      case 1 with ba show ?thesis by (auto simp: N_def)
    next
      case 2 with ba show ?thesis by (auto simp: N_def)
    next
      case 3 with ba t have "(x, a) \<in> E" by (auto dest: transD)
      then show ?thesis by (auto simp: N_def)
    next
      case 4 with ba t have "(y, a) \<in> E" by (auto dest: transD)
      then show ?thesis by (auto simp: N_def)
    qed
  qed
  have tr: "trans (E \<union> N \<times> N)"
  proof (rule transI)
    fix a b c assume ab: "(a, b) \<in> E \<union> N \<times> N" and bc: "(b, c) \<in> E \<union> N \<times> N"
    show "(a, c) \<in> E \<union> N \<times> N"
    proof (cases "(a, b) \<in> E")
      case True
      note abE = this
      show ?thesis
      proof (cases "(b, c) \<in> E")
        case True with abE t show ?thesis by (auto dest: transD)
      next
        case False
        with bc have "b \<in> N" "c \<in> N" by auto
        with inN[OF abE] show ?thesis by simp
      qed
    next
      case False
      with ab have a: "a \<in> N" "b \<in> N" by auto
      show ?thesis
      proof (cases "(b, c) \<in> E")
        case True
        with s have "(c, b) \<in> E" by (auto dest: symD)
        from inN[OF this a(2)] a(1) show ?thesis by simp
      next
        case False
        with bc a show ?thesis by auto
      qed
    qed
  qed
  have "E \<union> {x, y} \<times> {x, y} \<subseteq> E \<union> N \<times> N" by (auto simp: N_def)
  then have "(E \<union> {x, y} \<times> {x, y})\<^sup>+ \<subseteq> (E \<union> N \<times> N)\<^sup>+" by (rule trancl_mono_subset)
  with tr show "(E \<union> {x, y} \<times> {x, y})\<^sup>+ \<subseteq> E \<union> N \<times> N" by simp
next
  let ?T = "(E \<union> {x, y} \<times> {x, y})\<^sup>+"
  have e: "\<And>a b. (a, b) \<in> E \<Longrightarrow> (a, b) \<in> ?T" by auto
  have xy: "(x, x) \<in> ?T" "(x, y) \<in> ?T" "(y, x) \<in> ?T" by auto
  have to_x: "\<And>a. a \<in> N \<Longrightarrow> (a, x) \<in> ?T"
  proof -
    fix a assume "a \<in> N"
    then consider "a = x" | "a = y" | "(x, a) \<in> E" | "(y, a) \<in> E" by (auto simp: N_def)
    then show "(a, x) \<in> ?T"
    proof cases
      case 1 with xy show ?thesis by simp
    next
      case 2 with xy show ?thesis by simp
    next
      case 3 with s have "(a, x) \<in> E" by (auto dest: symD)
      then show ?thesis by (rule e)
    next
      case 4 with s have "(a, y) \<in> E" by (auto dest: symD)
      from e[OF this] xy(3) show ?thesis by (rule trancl_trans)
    qed
  qed
  have from_x: "\<And>b. b \<in> N \<Longrightarrow> (x, b) \<in> ?T"
  proof -
    fix b assume "b \<in> N"
    then consider "b = x" | "b = y" | "(x, b) \<in> E" | "(y, b) \<in> E" by (auto simp: N_def)
    then show "(x, b) \<in> ?T"
    proof cases
      case 1 with xy show ?thesis by simp
    next
      case 2 with xy show ?thesis by simp
    next
      case 3 then show ?thesis by (rule e)
    next
      case 4 from xy(2) e[OF 4] show ?thesis by (rule trancl_trans)
    qed
  qed
  show "E \<union> N \<times> N \<subseteq> ?T"
  proof
    fix z assume z: "z \<in> E \<union> N \<times> N"
    obtain a b where ab: "z = (a, b)" by (cases z)
    show "z \<in> ?T"
    proof (cases "(a, b) \<in> E")
      case True with ab e show ?thesis by simp
    next
      case False
      with z ab have "a \<in> N" "b \<in> N" by auto
      from to_x[OF this(1)] from_x[OF this(2)] ab show ?thesis by (auto intro: trancl_trans)
    qed
  qed
qed

lemma cooccur_Un: "cooccur (A \<union> B) = cooccur A \<union> cooccur B"
  by (auto simp: cooccur_def)

lemma cooccur_single: "cooccur {(f, a)} = {Inl f, Inr a} \<times> {Inl f, Inr a}"
  by (auto simp: cooccur_def)

lemma cooccur_empty: "cooccur {} = {}"
  by (simp add: cooccur_def)

lemma row_keys_Cons:
  "form_tuple r = Inr f \<Longrightarrow> app_tuple r = Inr a \<Longrightarrow> row_keys (r # rs) = insert (f, a) (row_keys rs)"
  by (auto simp: row_keys_def)

lemma comember_empty: "comember empty_registry = {}"
  by (simp add: comember_def live_def empty_registry_def)

lemma add_all_closure:
  assumes "registry_inv st" "comember st = (cooccur K)\<^sup>+"
    "\<forall>r \<in> set rs. \<exists>f a. form_tuple r = Inr f \<and> app_tuple r = Inr a"
  shows "\<exists>st'. add_all rs st = Inr st' \<and> registry_inv st' \<and>
           comember st' = (cooccur (K \<union> row_keys rs))\<^sup>+"
  using assms
proof (induction rs arbitrary: st K)
  case Nil
  then show ?case by (simp add: row_keys_def)
next
  case (Cons r rs)
  from Cons.prems(3) obtain f a where k: "form_tuple r = Inr f" "app_tuple r = Inr a"
    by auto
  from add_keys_spec[OF Cons.prems(1), of f a] obtain st1 c where
    a1: "add_keys f a st = Inr (st1, c)" and p: "add_post f a st st1 c" by blast
  from p have inv1: "registry_inv st1"
    and cm: "comember st1 = comember st \<union> neighbours f a st \<times> neighbours f a st"
    by (simp_all add: add_post_def)
  have "comember st1 = (comember st \<union> {Inl f, Inr a} \<times> {Inl f, Inr a})\<^sup>+"
    unfolding cm neighbours_def
    by (rule trancl_add_pair[OF comember_sym comember_trans[OF Cons.prems(1)], symmetric])
  also have "\<dots> = ((cooccur K)\<^sup>+ \<union> cooccur {(f, a)})\<^sup>+"
    by (simp add: Cons.prems(2) cooccur_single)
  also have "\<dots> = (cooccur K \<union> cooccur {(f, a)})\<^sup>+" by (rule trancl_absorb)
  also have "\<dots> = (cooccur (K \<union> {(f, a)}))\<^sup>+" by (simp only: cooccur_Un)
  finally have cm1: "comember st1 = (cooccur (K \<union> {(f, a)}))\<^sup>+" .
  from Cons.prems(3) have rest: "\<forall>r \<in> set rs. \<exists>f a. form_tuple r = Inr f \<and> app_tuple r = Inr a"
    by simp
  from Cons.IH[OF inv1 cm1 rest] obtain st' where
    s: "add_all rs st1 = Inr st'" "registry_inv st'"
       "comember st' = (cooccur (K \<union> {(f, a)} \<union> row_keys rs))\<^sup>+"
    by blast
  have "add_all (r # rs) st = Inr st'"
    using a1 s(1) by (simp add: add_row[OF k])
  moreover have "K \<union> {(f, a)} \<union> row_keys rs = K \<union> row_keys (r # rs)"
    by (simp add: row_keys_Cons[OF k])
  ultimately show ?case using s(2,3) by simp
qed

lemma row_keys_cong: "set rs' = set rs \<Longrightarrow> row_keys rs' = row_keys rs"
  by (simp add: row_keys_def)

text \<open>
  C1. Let every row of a list have its two keys (the construction of the formulation
  key raises for none of them), and let a second list hold the same rows in another
  order. Then adding either list to the empty registry returns, the two results have
  the same co-member relation, and that relation is the transitive closure of "the two
  keys occur on the same row" (\<open>cooccur\<close>, which relates the two keys of a row to
  each other and to themselves). The ids and the objects of the classes are not
  compared.
\<close>

theorem ingestion_order_independent:
  assumes "\<forall>r \<in> set rs. \<exists>f a. form_tuple r = Inr f \<and> app_tuple r = Inr a"
    and "set rs' = set rs"
  shows "\<exists>st st'. add_all rs empty_registry = Inr st \<and> add_all rs' empty_registry = Inr st' \<and>
           comember st' = comember st \<and> comember st = (cooccur (row_keys rs))\<^sup>+"
proof -
  have c0: "comember empty_registry = (cooccur {})\<^sup>+"
    by (simp add: comember_empty cooccur_empty)
  from add_all_closure[OF empty_registry_inv c0 assms(1)] obtain st where
    s: "add_all rs empty_registry = Inr st" "comember st = (cooccur (row_keys rs))\<^sup>+"
    by auto
  from assms have "\<forall>r \<in> set rs'. \<exists>f a. form_tuple r = Inr f \<and> app_tuple r = Inr a" by simp
  from add_all_closure[OF empty_registry_inv c0 this] obtain st' where
    s': "add_all rs' empty_registry = Inr st'" "comember st' = (cooccur (row_keys rs'))\<^sup>+"
    by auto
  from s s' row_keys_cong[OF assms(2)] show ?thesis by auto
qed

theorem ingestion_order_independent_witness:
  "\<exists>st st'. add_all [ex_row1, ex_row2, ex_row3] empty_registry = Inr st \<and>
     add_all [ex_row3, ex_row2, ex_row1] empty_registry = Inr st' \<and>
     comember st' = comember st \<and>
     comember st = (cooccur (row_keys [ex_row1, ex_row2, ex_row3]))\<^sup>+"
proof -
  have k: "\<forall>r \<in> set [ex_row1, ex_row2, ex_row3]. \<exists>f a. form_tuple r = Inr f \<and> app_tuple r = Inr a"
    by (simp add: ex_row1_keys ex_row2_keys ex_row3_keys)
  have p: "set [ex_row3, ex_row2, ex_row1] = set [ex_row1, ex_row2, ex_row3]" by auto
  show ?thesis by (rule ingestion_order_independent[OF k p])
qed

subsection \<open>Writing the classes out and reading them back\<close>

lemma to_dicts_live:
  assumes t: "table_ok st" and sub: "set es \<subseteq> set (eq_classes st)"
  shows "to_dicts st (map snd es) =
     Inr (map (\<lambda>(i, p). \<lparr>d_eq_id = i,
                 d_form_tuples = sorted_list_of_set (form_tuples (obj st p)),
                 d_app_tuples = sorted_list_of_set (app_tuples (obj st p))\<rparr>) es)"
  using sub
proof (induction es)
  case Nil
  show ?case by simp
next
  case (Cons e es)
  obtain i p where e: "e = (i, p)" by (cases e)
  with Cons.prems have "(i, p) \<in> set (eq_classes st)" by simp
  with t have "eq_id (obj st p) = Some i" by (auto simp: table_ok_def)
  moreover from Cons have "to_dicts st (map snd es) =
     Inr (map (\<lambda>(i, p). \<lparr>d_eq_id = i,
                 d_form_tuples = sorted_list_of_set (form_tuples (obj st p)),
                 d_app_tuples = sorted_list_of_set (app_tuples (obj st p))\<rparr>) es)"
    by simp
  ultimately show ?case by (simp add: e to_dict_def)
qed

lemma class_table_keys: "map fst (class_table st) = map fst (eq_classes st)"
  by (simp add: class_table_def case_prod_unfold comp_def)

lemma load_classes_spec:
  assumes inv: "registry_inv st" and split: "eq_classes st = done @ es"
    and inv': "registry_inv st'"
    and tab: "class_table st' = map (\<lambda>(i, p). (i, form_tuples (obj st p), app_tuples (obj st p))) done"
  shows "\<exists>st''. load_classes (map (\<lambda>(i, p). \<lparr>d_eq_id = i,
                 d_form_tuples = sorted_list_of_set (form_tuples (obj st p)),
                 d_app_tuples = sorted_list_of_set (app_tuples (obj st p))\<rparr>) es) st' = Inr st'' \<and>
           registry_inv st'' \<and>
           class_table st'' = map (\<lambda>(i, p). (i, form_tuples (obj st p), app_tuples (obj st p))) (done @ es)"
  using split inv' tab
proof (induction es arbitrary: "done" st')
  case Nil
  then show ?case by simp
next
  case (Cons e es)
  obtain i p where e: "e = (i, p)" by (cases e)
  note split = Cons.prems(1)[unfolded e] and inv' = Cons.prems(2) and tab = Cons.prems(3)
  from inv have t: "table_ok st" and fo: "form_ok st" and ao: "app_ok st" and fi: "finite_ok st"
    by (simp_all add: registry_inv_def)
  from inv' have t': "table_ok st'" and fo': "form_ok st'" and ao': "app_ok st'"
    by (simp_all add: registry_inv_def)
  have pl: "p \<in> live st" using split by (force simp: live_def)
  from fi pl have fin: "finite (form_tuples (obj st p))" "finite (app_tuples (obj st p))"
    by (simp_all add: finite_ok_def)
  define fts where "fts = sorted_list_of_set (form_tuples (obj st p))"
  define ats where "ats = sorted_list_of_set (app_tuples (obj st p))"
  have sf: "set fts = form_tuples (obj st p)" "distinct fts"
    using fin by (simp_all add: fts_def)
  have sa: "set ats = app_tuples (obj st p)" "distinct ats"
    using fin by (simp_all add: ats_def)
  from t split have d1: "distinct (map fst (done @ (i, p) # es))"
    and d2: "distinct (map snd (done @ (i, p) # es))"
    by (simp_all add: table_ok_def)
  have live_done: "\<And>q. q \<in> live st' \<Longrightarrow>
      \<exists>j q'. (j, q') \<in> set done \<and> form_tuples (obj st' q) = form_tuples (obj st q') \<and>
              app_tuples (obj st' q) = app_tuples (obj st q')"
  proof -
    fix q assume "q \<in> live st'"
    then obtain j where "(j, q) \<in> set (eq_classes st')" by (auto simp: live_def)
    then have "(j, form_tuples (obj st' q), app_tuples (obj st' q)) \<in> set (class_table st')"
      by (force simp: class_table_def)
    then show "\<exists>j q'. (j, q') \<in> set done \<and> form_tuples (obj st' q) = form_tuples (obj st q') \<and>
              app_tuples (obj st' q) = app_tuples (obj st q')"
      unfolding tab by auto
  qed
  have done_live: "\<And>j q'. (j, q') \<in> set done \<Longrightarrow> q' \<in> live st \<and> q' \<noteq> p"
  proof -
    fix j q' assume m: "(j, q') \<in> set done"
    then have "q' \<in> live st" using split by (force simp: live_def)
    moreover have "q' \<noteq> p" using d2 m by (auto simp: image_iff)
    ultimately show "q' \<in> live st \<and> q' \<noteq> p" by simp
  qed
  have unf: "set fts \<inter> dom (form_tuple_classes st') = {}"
  proof (rule ccontr)
    assume "set fts \<inter> dom (form_tuple_classes st') \<noteq> {}"
    then obtain ft q where ft: "ft \<in> form_tuples (obj st p)" "form_tuple_classes st' ft = Some q"
      by (auto simp: sf)
    from form_okD[OF fo', of ft q] ft(2) have q: "q \<in> live st'" "ft \<in> form_tuples (obj st' q)"
      by simp_all
    from live_done[OF q(1)] q(2) obtain j q' where
      m: "(j, q') \<in> set done" "ft \<in> form_tuples (obj st q')" by auto
    from done_live[OF m(1)] form_uniq[OF fo pl _ ft(1) m(2)] show False by simp
  qed
  have una: "set ats \<inter> dom (app_tuple_classes st') = {}"
  proof (rule ccontr)
    assume "set ats \<inter> dom (app_tuple_classes st') \<noteq> {}"
    then obtain at q where at: "at \<in> app_tuples (obj st p)" "app_tuple_classes st' at = Some q"
      by (auto simp: sa)
    from app_okD[OF ao', of at q] at(2) have q: "q \<in> live st'" "at \<in> app_tuples (obj st' q)"
      by simp_all
    from live_done[OF q(1)] q(2) obtain j q' where
      m: "(j, q') \<in> set done" "at \<in> app_tuples (obj st q')" by auto
    from done_live[OF m(1)] app_uniq[OF ao pl _ at(1) m(2)] show False by simp
  qed
  have "map fst (eq_classes st') = map fst done"
    using class_table_keys[of st'] by (simp add: tab case_prod_unfold comp_def)
  then have "fst ` set (eq_classes st') = fst ` set done" by (metis set_map)
  with d1 have fresh: "i \<notin> fst ` set (eq_classes st')" by simp
  from init_spec[OF inv' sf(2) sa(2) unf una, of i "Some i"] fresh obtain st1 where s1:
    "EquivalenceClass_init fts ats (Some i) st' = Inr (st1, length (heap st'))" "registry_inv st1"
    "heap st1 = heap st' @ [\<lparr>form_tuples = set fts, app_tuples = set ats, eq_id = Some i\<rparr>]"
    "eq_classes st1 = eq_classes st' @ [(i, length (heap st'))]"
    by auto
  have old: "\<And>j q. (j, q) \<in> set (eq_classes st') \<Longrightarrow> obj st1 q = obj st' q"
  proof -
    fix j q assume "(j, q) \<in> set (eq_classes st')"
    with t' have "q < length (heap st')" by (auto simp: table_ok_def)
    then show "obj st1 q = obj st' q" by (simp add: obj_def s1(3) nth_append)
  qed
  have m: "map (\<lambda>(i, p). (i, form_tuples (obj st1 p), app_tuples (obj st1 p))) (eq_classes st') =
        class_table st'"
    unfolding class_table_def by (rule map_cong[OF refl]) (auto simp: old)
  have newobj: "obj st1 (length (heap st')) =
      \<lparr>form_tuples = form_tuples (obj st p), app_tuples = app_tuples (obj st p), eq_id = Some i\<rparr>"
    by (simp add: obj_def[of st1] s1(3) sf sa)
  have "class_table st1 = class_table st' @ [(i, form_tuples (obj st p), app_tuples (obj st p))]"
    unfolding class_table_def[of st1] s1(4) by (simp add: m newobj)
  then have tab1: "class_table st1 =
      map (\<lambda>(i, p). (i, form_tuples (obj st p), app_tuples (obj st p))) (done @ [(i, p)])"
    by (simp add: tab)
  have split1: "eq_classes st = (done @ [(i, p)]) @ es" using split by simp
  from Cons.IH[OF split1 s1(2) tab1] obtain st'' where s2:
    "load_classes (map (\<lambda>(i, p). \<lparr>d_eq_id = i,
                 d_form_tuples = sorted_list_of_set (form_tuples (obj st p)),
                 d_app_tuples = sorted_list_of_set (app_tuples (obj st p))\<rparr>) es) st1 = Inr st''"
    "registry_inv st''"
    "class_table st'' = map (\<lambda>(i, p). (i, form_tuples (obj st p), app_tuples (obj st p)))
        ((done @ [(i, p)]) @ es)"
    by blast
  have "load_classes (map (\<lambda>(i, p). \<lparr>d_eq_id = i,
                 d_form_tuples = sorted_list_of_set (form_tuples (obj st p)),
                 d_app_tuples = sorted_list_of_set (app_tuples (obj st p))\<rparr>) (e # es)) st' = Inr st''"
    using s1(1) s2(1) by (simp add: e fts_def ats_def)
  with s2(2,3) show ?case by (auto simp: e)
qed

text \<open>
  C5. For a registry that satisfies the invariant, writing out every live class with
  \<open>to_dict\<close> succeeds, and loading the records into a registry without classes (as
  \<^verbatim>\<open>load_summary\<close> does when \<open>eq_classes\<close> is empty) succeeds and gives a registry that
  satisfies the invariant and has the same classes: the same ids, in the same order,
  each with the same formulation keys and the same application keys.
\<close>

theorem summary_round_trip:
  assumes inv: "registry_inv st" and inv0: "registry_inv st0" and e0: "eq_classes st0 = []"
  shows "\<exists>ds st'. dump_summary st = Inr ds \<and> load_summary ds st0 = Inr st' \<and>
           registry_inv st' \<and> class_table st' = class_table st"
proof -
  define ds where "ds = map (\<lambda>(i, p). \<lparr>d_eq_id = i,
                 d_form_tuples = sorted_list_of_set (form_tuples (obj st p)),
                 d_app_tuples = sorted_list_of_set (app_tuples (obj st p))\<rparr>) (eq_classes st)"
  from inv have t: "table_ok st" by (simp add: registry_inv_def)
  have d: "dump_summary st = Inr ds"
    using to_dicts_live[OF t subset_refl] by (simp add: dump_summary_def all_classes_def ds_def)
  have tab0: "class_table st0 =
      map (\<lambda>(i, p). (i, form_tuples (obj st p), app_tuples (obj st p))) []"
    by (simp add: class_table_def e0)
  from load_classes_spec[OF inv _ inv0 tab0, of "eq_classes st"] obtain st' where
    s: "load_classes ds st0 = Inr st'" "registry_inv st'"
       "class_table st' = map (\<lambda>(i, p). (i, form_tuples (obj st p), app_tuples (obj st p))) (eq_classes st)"
    by (auto simp: ds_def)
  have "load_summary ds st0 = Inr st'" using s(1) e0 by (simp add: load_summary_def)
  with d s(2,3) show ?thesis by (auto simp: class_table_def)
qed

theorem summary_round_trip_witness:
  "\<exists>ds st'. dump_summary merged_registry = Inr ds \<and> load_summary ds empty_registry = Inr st' \<and>
     registry_inv st' \<and> class_table st' = class_table merged_registry"
proof -
  have e: "eq_classes empty_registry = []" by (simp add: empty_registry_def)
  show ?thesis by (rule summary_round_trip[OF merged_registry_inv empty_registry_inv e])
qed

subsection \<open>Construction of the formulation key\<close>

lemma split_semi_from_nonempty: "split_semi_from cur b s \<noteq> []"
  by (induction s arbitrary: cur b) auto

lemma split_semi_nonempty: "split_semi s \<noteq> []"
  by (simp add: split_semi_def split_semi_from_nonempty)

lemma parse_strengths_error:
  assumes "parse_strengths text n r = Inl e" "n \<noteq> 0"
  shows "e = RuntimeError (sub_federal_register text) n r"
proof -
  define t where "t = sub_federal_register text"
  define elts where "elts = split_semi t"
  define relts where "relts = map (join '', '') (zip_star (map (split_char CHR '','') elts))"
  have ne: "length elts \<noteq> 0" using split_semi_nonempty by (simp add: elts_def)
  have nz: "\<not> (length elts mod n = 0 \<and> length elts div n = 0)"
  proof
    assume "length elts mod n = 0 \<and> length elts div n = 0"
    with div_mult_mod_eq[of "length elts" n] have "length elts = 0" by simp
    with ne show False by simp
  qed
  have p: "parse_strengths text n r =
     (if t = special_strength_text then Inr [''250MG'', ''12.5MG'', ''75MG'', ''50MG'']
      else
        (case paren_search t of
           Some (m1, m2) \<Rightarrow>
             Inr (map (\<lambda>(a, b). a @ '' ('' @ b @ '')'') (zip (split_semi m1) (split_semi m2)))
         | None \<Rightarrow>
              if length elts = n \<or> n = 1 then Inr elts
              else if length relts = n then Inr relts
              else if n = 0 then Inl ZeroDivisionError
              else if length elts mod n = 0 then
                   (if length elts div n = 0 then Inl ValueError
                    else Inr (map (\<lambda>i. join '', '' (take n (drop i elts)))
                                  (range_step (length elts) (length elts div n))))
              else Inl (RuntimeError t n r)))"
    unfolding parse_strengths_def Let_def t_def elts_def relts_def by (rule refl)
  show ?thesis
  proof (cases "t = special_strength_text")
    case True
    with assms(1) p show ?thesis by simp
  next
    case ns: False
    show ?thesis
    proof (cases "paren_search t")
      case (Some m)
      obtain m1 m2 where "m = (m1, m2)" by (cases m)
      with assms(1) p ns Some show ?thesis by simp
    next
      case None
      show ?thesis
      proof (cases "length elts = n \<or> n = 1")
        case True
        with assms(1) p ns None show ?thesis by simp
      next
        case c1: False
        show ?thesis
        proof (cases "length relts = n")
          case True
          with assms(1) p ns None c1 show ?thesis by simp
        next
          case c2: False
          show ?thesis
          proof (cases "length elts mod n = 0")
            case True
            with nz have "length elts div n \<noteq> 0" by simp
            with assms p ns None c1 c2 True show ?thesis by simp
          next
            case False
            with assms p ns None c1 c2 show ?thesis by (simp add: t_def)
          qed
        qed
      qed
    qed
  qed
qed

lemma parse_strengths_single:
  "\<exists>strs. parse_strengths text 1 r = Inr strs \<and> strs \<noteq> []"
proof -
  define t where "t = sub_federal_register text"
  show ?thesis
  proof (cases "paren_search t")
    case (Some m)
    obtain m1 m2 where m: "m = (m1, m2)" by (cases m)
    have "zip (split_semi m1) (split_semi m2) \<noteq> []"
      using split_semi_nonempty[of m1] split_semi_nonempty[of m2]
      by (cases "split_semi m1"; cases "split_semi m2") simp_all
    with Some m show ?thesis
      by (simp add: parse_strengths_def t_def[symmetric])
  next
    case None
    with split_semi_nonempty[of t] show ?thesis
      by (simp add: parse_strengths_def t_def[symmetric])
  qed
qed

lemma insort_Pair: "insort (i, a) (map (Pair i) ys) = map (Pair i) (insort a ys)"
  by (induction ys) auto

lemma sort_Pair: "sort (map (Pair i) xs) = map (Pair i) (sort xs)"
  by (induction xs) (simp_all add: insort_Pair)

lemma zip_replicate_Pair: "zip (replicate (length xs) i) xs = map (Pair i) xs"
  by (induction xs) auto

lemma concat_replicate_one: "concat (replicate n [i]) = replicate n i"
  by (induction n) simp_all

lemma form_tuple_single:
  assumes fr: "getitem r ''df;route'' = Inr fr" and ing: "getitem r ''ingredient'' = Inr ing"
    and st: "getitem r ''strength'' = Inr st"
    and one: "split_semi ing = [i]"
    and strs: "parse_strengths st 1 r = Inr strs" and ne: "strs \<noteq> []"
  shows "form_tuple r =
     Inr (FormulationTuple (join ''; '' (replicate (length strs) i)) (sub_semi_space fr)
            (join ''; '' (sort strs)))"
proof -
  have ne': "sort strs \<noteq> []" using ne by (metis length_sort length_0_conv)
  have m: "map fst (map (Pair i) (sort strs)) = replicate (length strs) i"
    by (simp add: comp_def map_replicate_const)
  have s: "map snd (map (Pair i) (sort strs)) = sort strs"
    by (simp add: comp_def)
  show ?thesis
    using strs ne'
    by (simp add: form_tuple_def fr ing st one Let_def concat_replicate_one zip_replicate_Pair
        sort_Pair m s del: map_map)
qed

lemma form_tuple_many:
  assumes fr: "getitem r ''df;route'' = Inr fr" and ing: "getitem r ''ingredient'' = Inr ing"
    and st: "getitem r ''strength'' = Inr st"
    and n: "length (split_semi ing) \<noteq> 1"
    and strs: "parse_strengths st (length (split_semi ing)) r = Inr strs"
    and l: "length strs = length (split_semi ing)"
  shows "form_tuple r =
     Inr (FormulationTuple (join ''; '' (map fst (sort (zip (split_semi ing) strs))))
            (sub_semi_space fr) (join ''; '' (map snd (sort (zip (split_semi ing) strs)))))"
proof -
  have "length (sort (zip (split_semi ing) strs)) = length (split_semi ing)" using l by simp
  then have "sort (zip (split_semi ing) strs) \<noteq> []"
    using split_semi_nonempty[of ing] by (metis length_0_conv)
  then show ?thesis
    using n strs l by (simp add: form_tuple_def fr ing st Let_def)
qed

text \<open>
  C10, as the code has it. Let the row have its three columns, let the ingredient column
  hold no semicolon (it splits into the single ingredient \<open>i\<close>), and let the strengths
  parse into a list of more than one. Then \<open>form_tuple\<close> returns a key: its
  ingredient field is \<open>i\<close> repeated once for each strength and joined with
  \<^verbatim>\<open>"; "\<close>, and its strength field joins the strengths in sorted order, since the
  pairs of ingredient and strength are sorted before they are joined; the order of the
  strength text is not kept.
\<close>

theorem single_ingredient_replicated:
  assumes fr: "getitem r ''df;route'' = Inr fr" and ing: "getitem r ''ingredient'' = Inr ing"
    and st: "getitem r ''strength'' = Inr st"
    and one: "split_semi ing = [i]"
    and strs: "parse_strengths st 1 r = Inr strs" and n: "1 < length strs"
  shows "form_tuple r =
     Inr (FormulationTuple (join ''; '' (replicate (length strs) i)) (sub_semi_space fr)
            (join ''; '' (sort strs)))"
proof -
  have ne: "sort strs \<noteq> []" using n by (metis length_sort list.size(3) not_less_zero)
  have m: "map fst (map (Pair i) (sort strs)) = replicate (length strs) i"
    by (simp add: comp_def map_replicate_const)
  have s: "map snd (map (Pair i) (sort strs)) = sort strs"
    by (simp add: comp_def)
  have c: "concat (replicate (length strs) [i]) = replicate (length strs) i"
    by (induction "length strs" arbitrary: strs) (simp_all add: replicate_append_same)
  show ?thesis
    using strs ne
    by (simp add: form_tuple_def fr ing st one Let_def c zip_replicate_Pair sort_Pair m s del: map_map)
qed

theorem single_ingredient_replicated_witness:
  "getitem ex_row_single ''df;route'' = Inr ''TABLET; ORAL-28'' \<and>
   getitem ex_row_single ''ingredient'' = Inr ''ESTRADIOL'' \<and>
   getitem ex_row_single ''strength'' = Inr ''2MG;1MG'' \<and>
   split_semi ''ESTRADIOL'' = [''ESTRADIOL''] \<and>
   parse_strengths ''2MG;1MG'' 1 ex_row_single = Inr [''2MG'', ''1MG''] \<and>
   form_tuple ex_row_single =
     Inr (FormulationTuple ''ESTRADIOL; ESTRADIOL'' ''TABLET;ORAL-28'' ''1MG; 2MG'')"
proof -
  have g: "getitem ex_row_single ''df;route'' = Inr ''TABLET; ORAL-28''"
      "getitem ex_row_single ''ingredient'' = Inr ''ESTRADIOL''"
      "getitem ex_row_single ''strength'' = Inr ''2MG;1MG''"
    by code_simp+
  have o: "split_semi ''ESTRADIOL'' = [''ESTRADIOL'']" by code_simp
  have p: "parse_strengths ''2MG;1MG'' 1 ex_row_single = Inr [''2MG'', ''1MG'']" by code_simp
  have l: "1 < length [''2MG'', ''1MG'']" by simp
  have j: "join ''; '' (replicate (length [''2MG'', ''1MG'']) ''ESTRADIOL'') = ''ESTRADIOL; ESTRADIOL''"
      "sub_semi_space ''TABLET; ORAL-28'' = ''TABLET;ORAL-28''"
      "join ''; '' (sort [''2MG'', ''1MG'']) = ''1MG; 2MG''"
    by code_simp+
  from single_ingredient_replicated[OF g o p l] g o p show ?thesis
    by (simp only: j simp_thms)
qed

text \<open>
  The claim as stated, with the strengths in the order of the strength text, fails for
  \<open>ex_row_single\<close>: the strengths \<^verbatim>\<open>2MG;1MG\<close> come out as \<^verbatim>\<open>1MG; 2MG\<close>.
\<close>

theorem single_ingredient_order_counterexample:
  "getitem ex_row_single ''ingredient'' = Inr ''ESTRADIOL'' \<and>
   getitem ex_row_single ''strength'' = Inr ''2MG;1MG'' \<and>
   split_semi ''ESTRADIOL'' = [''ESTRADIOL''] \<and>
   parse_strengths ''2MG;1MG'' 1 ex_row_single = Inr [''2MG'', ''1MG''] \<and>
   join ''; '' [''2MG'', ''1MG''] = ''2MG; 1MG'' \<and>
   form_tuple ex_row_single \<noteq>
     Inr (FormulationTuple ''ESTRADIOL; ESTRADIOL'' ''TABLET;ORAL-28'' ''2MG; 1MG'') \<and>
   form_tuple ex_row_single =
     Inr (FormulationTuple ''ESTRADIOL; ESTRADIOL'' ''TABLET;ORAL-28'' ''1MG; 2MG'')"
proof -
  have "getitem ex_row_single ''ingredient'' = Inr ''ESTRADIOL''" by code_simp
  moreover have "getitem ex_row_single ''strength'' = Inr ''2MG;1MG''" by code_simp
  moreover have "split_semi ''ESTRADIOL'' = [''ESTRADIOL'']" by code_simp
  moreover have "parse_strengths ''2MG;1MG'' 1 ex_row_single = Inr [''2MG'', ''1MG'']"
    by code_simp
  moreover have "join ''; '' [''2MG'', ''1MG''] = ''2MG; 1MG''" by code_simp
  moreover have f: "form_tuple ex_row_single =
     Inr (FormulationTuple ''ESTRADIOL; ESTRADIOL'' ''TABLET;ORAL-28'' ''1MG; 2MG'')"
    by code_simp
  moreover have "form_tuple ex_row_single \<noteq>
     Inr (FormulationTuple ''ESTRADIOL; ESTRADIOL'' ''TABLET;ORAL-28'' ''2MG; 1MG'')"
    unfolding f by simp
  ultimately show ?thesis by blast
qed

text \<open>
  C6, as the code has it. Let the row have its three columns and let \<open>n\<close> be the number
  of ingredients.
  \<^item> Every exception of \<open>form_tuple\<close> is the \<^verbatim>\<open>RuntimeError\<close> of \<open>parse_strengths\<close>
    or the \<^verbatim>\<open>AssertionError\<close> on the lengths, and both carry the row.
  \<^item> An exception of \<open>parse_strengths\<close> is that \<^verbatim>\<open>RuntimeError\<close>, with the text and
    \<open>n\<close>, and \<open>form_tuple\<close> passes it on.
  \<^item> With more than one ingredient: when the strengths parse into a list of another
    length, the \<^verbatim>\<open>AssertionError\<close> is raised with the row and the two lists; when
    they parse into \<open>n\<close> strengths, the key is returned that joins the sorted pairs of
    ingredient and strength.
  \<^item> With one ingredient no exception is raised, whatever the number of strengths: the
    strengths parse, and the key returned repeats the ingredient once for each strength
    and joins the sorted strengths.
  \<^item> So every key returned is made of an ingredient list and a strength list of the same
    length: the ingredients of the row with the \<open>n\<close> strengths parsed, or the single
    ingredient repeated once for each strength.
\<close>

theorem strength_mismatch_fatal:
  assumes fr: "getitem r ''df;route'' = Inr fr" and ing: "getitem r ''ingredient'' = Inr ing"
    and st: "getitem r ''strength'' = Inr st"
  shows "(\<forall>e. form_tuple r = Inl e \<longrightarrow>
            (\<exists>t n. e = RuntimeError t n r) \<or> (\<exists>a b. e = AssertionError_lengths r a b)) \<and>
         (\<forall>e. parse_strengths st (length (split_semi ing)) r = Inl e \<longrightarrow>
            e = RuntimeError (sub_federal_register st) (length (split_semi ing)) r \<and>
            form_tuple r = Inl e) \<and>
         (\<forall>strs. length (split_semi ing) \<noteq> 1 \<longrightarrow>
            parse_strengths st (length (split_semi ing)) r = Inr strs \<longrightarrow>
            length strs \<noteq> length (split_semi ing) \<longrightarrow>
            form_tuple r = Inl (AssertionError_lengths r (split_semi ing) strs)) \<and>
         (\<forall>strs. length (split_semi ing) \<noteq> 1 \<longrightarrow>
            parse_strengths st (length (split_semi ing)) r = Inr strs \<longrightarrow>
            length strs = length (split_semi ing) \<longrightarrow>
            form_tuple r =
              Inr (FormulationTuple (join ''; '' (map fst (sort (zip (split_semi ing) strs))))
                     (sub_semi_space fr)
                     (join ''; '' (map snd (sort (zip (split_semi ing) strs)))))) \<and>
         (length (split_semi ing) = 1 \<longrightarrow>
            (\<exists>strs. parse_strengths st 1 r = Inr strs \<and> strs \<noteq> [] \<and>
               form_tuple r =
                 Inr (FormulationTuple
                        (join ''; '' (replicate (length strs) (hd (split_semi ing))))
                        (sub_semi_space fr) (join ''; '' (sort strs))))) \<and>
         (\<forall>ft. form_tuple r = Inr ft \<longrightarrow>
            (\<exists>ings strs.
               parse_strengths st (length (split_semi ing)) r = Inr strs \<and>
               ings = (if length (split_semi ing) = 1
                       then replicate (length strs) (hd (split_semi ing))
                       else split_semi ing) \<and>
               length ings = length strs \<and> strs \<noteq> [] \<and>
               ft = FormulationTuple (join ''; '' (map fst (sort (zip ings strs))))
                      (sub_semi_space fr) (join ''; '' (map snd (sort (zip ings strs))))))"
proof -
  let ?n = "length (split_semi ing)"
  have n0: "?n \<noteq> 0" using split_semi_nonempty by simp
  have perr: "\<And>e. parse_strengths st ?n r = Inl e \<Longrightarrow>
      e = RuntimeError (sub_federal_register st) ?n r \<and> form_tuple r = Inl e"
  proof -
    fix e assume e: "parse_strengths st ?n r = Inl e"
    from parse_strengths_error[OF e n0] have "e = RuntimeError (sub_federal_register st) ?n r" .
    moreover from e have "form_tuple r = Inl e" by (simp add: form_tuple_def fr ing st)
    ultimately show "e = RuntimeError (sub_federal_register st) ?n r \<and> form_tuple r = Inl e"
      by simp
  qed
  have mism: "\<And>strs. ?n \<noteq> 1 \<Longrightarrow> parse_strengths st ?n r = Inr strs \<Longrightarrow> length strs \<noteq> ?n \<Longrightarrow>
      form_tuple r = Inl (AssertionError_lengths r (split_semi ing) strs)"
    by (auto simp: form_tuple_def fr ing st Let_def)
  have many: "\<And>strs. ?n \<noteq> 1 \<Longrightarrow> parse_strengths st ?n r = Inr strs \<Longrightarrow> length strs = ?n \<Longrightarrow>
      form_tuple r =
        Inr (FormulationTuple (join ''; '' (map fst (sort (zip (split_semi ing) strs))))
               (sub_semi_space fr) (join ''; '' (map snd (sort (zip (split_semi ing) strs)))))"
    by (rule form_tuple_many[OF fr ing st])
  have single: "?n = 1 \<Longrightarrow>
      \<exists>strs. parse_strengths st 1 r = Inr strs \<and> strs \<noteq> [] \<and>
         form_tuple r =
           Inr (FormulationTuple (join ''; '' (replicate (length strs) (hd (split_semi ing))))
                  (sub_semi_space fr) (join ''; '' (sort strs)))"
  proof -
    assume one: "?n = 1"
    then obtain i where i: "split_semi ing = [i]"
      by (cases "split_semi ing") simp_all
    from parse_strengths_single[of st r] obtain strs where
      p: "parse_strengths st 1 r = Inr strs" "strs \<noteq> []" by blast
    from form_tuple_single[OF fr ing st i p] p i
    show ?thesis by auto
  qed
  have errs: "\<And>e. form_tuple r = Inl e \<Longrightarrow>
      (\<exists>t n. e = RuntimeError t n r) \<or> (\<exists>a b. e = AssertionError_lengths r a b)"
  proof -
    fix e assume e: "form_tuple r = Inl e"
    show "(\<exists>t n. e = RuntimeError t n r) \<or> (\<exists>a b. e = AssertionError_lengths r a b)"
    proof (cases "parse_strengths st ?n r")
      case (Inl e')
      from perr[OF Inl] e show ?thesis by auto
    next
      case (Inr strs)
      show ?thesis
      proof (cases "?n = 1")
        case True
        from single[OF True] e show ?thesis by auto
      next
        case False
        show ?thesis
        proof (cases "length strs = ?n")
          case True
          from many[OF False Inr True] e show ?thesis by simp
        next
          case ne: False
          from mism[OF False Inr ne] e show ?thesis by auto
        qed
      qed
    qed
  qed
  have keys: "\<And>ft. form_tuple r = Inr ft \<Longrightarrow>
      \<exists>ings strs. parse_strengths st ?n r = Inr strs \<and>
         ings = (if ?n = 1 then replicate (length strs) (hd (split_semi ing)) else split_semi ing) \<and>
         length ings = length strs \<and> strs \<noteq> [] \<and>
         ft = FormulationTuple (join ''; '' (map fst (sort (zip ings strs))))
                (sub_semi_space fr) (join ''; '' (map snd (sort (zip ings strs))))"
  proof -
    fix ft assume ft: "form_tuple r = Inr ft"
    show "\<exists>ings strs. parse_strengths st ?n r = Inr strs \<and>
         ings = (if ?n = 1 then replicate (length strs) (hd (split_semi ing)) else split_semi ing) \<and>
         length ings = length strs \<and> strs \<noteq> [] \<and>
         ft = FormulationTuple (join ''; '' (map fst (sort (zip ings strs))))
                (sub_semi_space fr) (join ''; '' (map snd (sort (zip ings strs))))"
    proof (cases "?n = 1")
      case True
      from single[OF True] obtain strs where
        p: "parse_strengths st 1 r = Inr strs" "strs \<noteq> []"
        and f: "form_tuple r =
           Inr (FormulationTuple (join ''; '' (replicate (length strs) (hd (split_semi ing))))
                  (sub_semi_space fr) (join ''; '' (sort strs)))"
        by blast
      let ?i = "hd (split_semi ing)"
      have z: "sort (zip (replicate (length strs) ?i) strs) = map (Pair ?i) (sort strs)"
        by (simp add: zip_replicate_Pair sort_Pair)
      have m: "map fst (map (Pair ?i) (sort strs)) = replicate (length strs) ?i"
        by (simp add: comp_def map_replicate_const)
      have s: "map snd (map (Pair ?i) (sort strs)) = sort strs"
        by (simp add: comp_def)
      from ft f have "ft = FormulationTuple
          (join ''; '' (map fst (sort (zip (replicate (length strs) ?i) strs))))
          (sub_semi_space fr)
          (join ''; '' (map snd (sort (zip (replicate (length strs) ?i) strs))))"
        unfolding z m s by simp
      with p True show ?thesis by simp
    next
      case False
      from ft obtain strs where p: "parse_strengths st ?n r = Inr strs"
        by (cases "parse_strengths st ?n r") (auto dest: perr)
      have l: "length strs = ?n"
      proof (rule ccontr)
        assume "length strs \<noteq> ?n"
        from mism[OF False p this] ft show False by simp
      qed
      from l n0 have ne: "strs \<noteq> []" by auto
      from many[OF False p l] ft p l ne False show ?thesis by simp
    qed
  qed
  show ?thesis
    using errs perr mism many single keys by (intro conjI allI impI) blast+
qed

text \<open>
  The claim as stated fails for a single ingredient: the strengths of \<open>ex_row_single2\<close>
  parse into three for one ingredient, and a key is returned.
\<close>

theorem strength_mismatch_counterexample:
  "getitem ex_row_single2 ''ingredient'' = Inr ''NORETHINDRONE'' \<and>
   getitem ex_row_single2 ''strength'' = Inr ''0.5MG;1MG;0.75MG'' \<and>
   length (split_semi ''NORETHINDRONE'') = 1 \<and>
   parse_strengths ''0.5MG;1MG;0.75MG'' 1 ex_row_single2 = Inr [''0.5MG'', ''1MG'', ''0.75MG''] \<and>
   form_tuple ex_row_single2 =
     Inr (FormulationTuple ''NORETHINDRONE; NORETHINDRONE; NORETHINDRONE'' ''TABLET;ORAL-21''
            ''0.5MG; 0.75MG; 1MG'')"
proof -
  have "getitem ex_row_single2 ''ingredient'' = Inr ''NORETHINDRONE''" by code_simp
  moreover have "getitem ex_row_single2 ''strength'' = Inr ''0.5MG;1MG;0.75MG''" by code_simp
  moreover have "length (split_semi ''NORETHINDRONE'') = 1" by code_simp
  moreover have "parse_strengths ''0.5MG;1MG;0.75MG'' 1 ex_row_single2 =
      Inr [''0.5MG'', ''1MG'', ''0.75MG'']" by code_simp
  moreover have "form_tuple ex_row_single2 =
     Inr (FormulationTuple ''NORETHINDRONE; NORETHINDRONE; NORETHINDRONE'' ''TABLET;ORAL-21''
            ''0.5MG; 0.75MG; 1MG'')" by code_simp
  ultimately show ?thesis by blast
qed

theorem strength_mismatch_fatal_witness:
  "parse_strengths ''325MG;40MG;50MG'' (length (split_semi ''ASPIRIN; CAFFEINE'')) ex_row_bad =
     Inl (RuntimeError ''325MG;40MG;50MG'' 2 ex_row_bad) \<and>
   form_tuple ex_row_bad = Inl (RuntimeError ''325MG;40MG;50MG'' 2 ex_row_bad) \<and>
   length (split_semi ''ASPIRIN; BUTALBITAL; CAFFEINE'') = 3 \<and>
   parse_strengths ''325MG;50MG (325MG/5ML;50MG/5ML)''
       (length (split_semi ''ASPIRIN; BUTALBITAL; CAFFEINE'')) ex_row_paren =
     Inr [''325MG (325MG/5ML)'', ''50MG (50MG/5ML)''] \<and>
   form_tuple ex_row_paren =
     Inl (AssertionError_lengths ex_row_paren (split_semi ''ASPIRIN; BUTALBITAL; CAFFEINE'')
            [''325MG (325MG/5ML)'', ''50MG (50MG/5ML)'']) \<and>
   length (split_semi ''CAFFEINE; ASPIRIN'') = 2 \<and>
   parse_strengths ''40MG;325MG'' (length (split_semi ''CAFFEINE; ASPIRIN'')) ex_row_two =
     Inr [''40MG'', ''325MG''] \<and>
   form_tuple ex_row_two =
     Inr (FormulationTuple ''ASPIRIN; CAFFEINE'' ''TABLET;ORAL'' ''325MG; 40MG'') \<and>
   (\<exists>ings strs.
      parse_strengths ''40MG;325MG'' (length (split_semi ''CAFFEINE; ASPIRIN'')) ex_row_two =
        Inr strs \<and>
      ings = (if length (split_semi ''CAFFEINE; ASPIRIN'') = 1
              then replicate (length strs) (hd (split_semi ''CAFFEINE; ASPIRIN''))
              else split_semi ''CAFFEINE; ASPIRIN'') \<and>
      length ings = length strs \<and> strs \<noteq> [] \<and>
      FormulationTuple ''ASPIRIN; CAFFEINE'' ''TABLET;ORAL'' ''325MG; 40MG'' =
        FormulationTuple (join ''; '' (map fst (sort (zip ings strs))))
          (sub_semi_space ''TABLET;ORAL'') (join ''; '' (map snd (sort (zip ings strs))))) \<and>
   length (split_semi ''NORETHINDRONE'') = 1 \<and>
   (\<exists>strs. parse_strengths ''0.5MG;1MG;0.75MG'' 1 ex_row_single2 = Inr strs \<and> strs \<noteq> [] \<and>
      form_tuple ex_row_single2 =
        Inr (FormulationTuple
               (join ''; '' (replicate (length strs) (hd (split_semi ''NORETHINDRONE''))))
               (sub_semi_space ''TABLET;ORAL-21'') (join ''; '' (sort strs))))"
proof -
  have gb: "getitem ex_row_bad ''df;route'' = Inr ''TABLET;ORAL''"
      "getitem ex_row_bad ''ingredient'' = Inr ''ASPIRIN; CAFFEINE''"
      "getitem ex_row_bad ''strength'' = Inr ''325MG;40MG;50MG''"
    by code_simp+
  have pb: "parse_strengths ''325MG;40MG;50MG'' (length (split_semi ''ASPIRIN; CAFFEINE'')) ex_row_bad =
     Inl (RuntimeError ''325MG;40MG;50MG'' 2 ex_row_bad)"
    by code_simp
  from strength_mismatch_fatal[OF gb] pb
  have fb: "form_tuple ex_row_bad = Inl (RuntimeError ''325MG;40MG;50MG'' 2 ex_row_bad)"
    by blast
  have gp: "getitem ex_row_paren ''df;route'' = Inr ''TABLET;ORAL''"
      "getitem ex_row_paren ''ingredient'' = Inr ''ASPIRIN; BUTALBITAL; CAFFEINE''"
      "getitem ex_row_paren ''strength'' = Inr ''325MG;50MG (325MG/5ML;50MG/5ML)''"
    by code_simp+
  have l3: "length (split_semi ''ASPIRIN; BUTALBITAL; CAFFEINE'') = 3" by code_simp
  have pp: "parse_strengths ''325MG;50MG (325MG/5ML;50MG/5ML)''
       (length (split_semi ''ASPIRIN; BUTALBITAL; CAFFEINE'')) ex_row_paren =
     Inr [''325MG (325MG/5ML)'', ''50MG (50MG/5ML)'']"
    by code_simp
  have n1: "length (split_semi ''ASPIRIN; BUTALBITAL; CAFFEINE'') \<noteq> 1"
      "length [''325MG (325MG/5ML)'', ''50MG (50MG/5ML)''] \<noteq>
       length (split_semi ''ASPIRIN; BUTALBITAL; CAFFEINE'')"
    by (simp_all add: l3)
  from strength_mismatch_fatal[OF gp] pp n1
  have fp: "form_tuple ex_row_paren =
     Inl (AssertionError_lengths ex_row_paren (split_semi ''ASPIRIN; BUTALBITAL; CAFFEINE'')
            [''325MG (325MG/5ML)'', ''50MG (50MG/5ML)''])"
    by blast
  have gt: "getitem ex_row_two ''df;route'' = Inr ''TABLET;ORAL''"
      "getitem ex_row_two ''ingredient'' = Inr ''CAFFEINE; ASPIRIN''"
      "getitem ex_row_two ''strength'' = Inr ''40MG;325MG''"
    by code_simp+
  have l2: "length (split_semi ''CAFFEINE; ASPIRIN'') = 2" by code_simp
  have pt: "parse_strengths ''40MG;325MG'' (length (split_semi ''CAFFEINE; ASPIRIN'')) ex_row_two =
     Inr [''40MG'', ''325MG'']"
    by code_simp
  have n2: "length (split_semi ''CAFFEINE; ASPIRIN'') \<noteq> 1"
      "length [''40MG'', ''325MG''] = length (split_semi ''CAFFEINE; ASPIRIN'')"
    by (simp_all add: l2)
  have v: "FormulationTuple
        (join ''; '' (map fst (sort (zip (split_semi ''CAFFEINE; ASPIRIN'') [''40MG'', ''325MG'']))))
        (sub_semi_space ''TABLET;ORAL'')
        (join ''; '' (map snd (sort (zip (split_semi ''CAFFEINE; ASPIRIN'') [''40MG'', ''325MG''])))) =
      FormulationTuple ''ASPIRIN; CAFFEINE'' ''TABLET;ORAL'' ''325MG; 40MG''"
    by code_simp
  from strength_mismatch_fatal[OF gt] pt n2
  have "form_tuple ex_row_two =
     Inr (FormulationTuple
        (join ''; '' (map fst (sort (zip (split_semi ''CAFFEINE; ASPIRIN'') [''40MG'', ''325MG'']))))
        (sub_semi_space ''TABLET;ORAL'')
        (join ''; '' (map snd (sort (zip (split_semi ''CAFFEINE; ASPIRIN'') [''40MG'', ''325MG''])))))"
    by blast
  then have ft: "form_tuple ex_row_two =
      Inr (FormulationTuple ''ASPIRIN; CAFFEINE'' ''TABLET;ORAL'' ''325MG; 40MG'')"
    unfolding v .
  from strength_mismatch_fatal[OF gt] ft
  have ex: "\<exists>ings strs.
      parse_strengths ''40MG;325MG'' (length (split_semi ''CAFFEINE; ASPIRIN'')) ex_row_two =
        Inr strs \<and>
      ings = (if length (split_semi ''CAFFEINE; ASPIRIN'') = 1
              then replicate (length strs) (hd (split_semi ''CAFFEINE; ASPIRIN''))
              else split_semi ''CAFFEINE; ASPIRIN'') \<and>
      length ings = length strs \<and> strs \<noteq> [] \<and>
      FormulationTuple ''ASPIRIN; CAFFEINE'' ''TABLET;ORAL'' ''325MG; 40MG'' =
        FormulationTuple (join ''; '' (map fst (sort (zip ings strs))))
          (sub_semi_space ''TABLET;ORAL'') (join ''; '' (map snd (sort (zip ings strs))))"
    by blast
  have gs: "getitem ex_row_single2 ''df;route'' = Inr ''TABLET;ORAL-21''"
      "getitem ex_row_single2 ''ingredient'' = Inr ''NORETHINDRONE''"
      "getitem ex_row_single2 ''strength'' = Inr ''0.5MG;1MG;0.75MG''"
    by code_simp+
  have l1: "length (split_semi ''NORETHINDRONE'') = 1" by code_simp
  from strength_mismatch_fatal[OF gs] l1
  have sg: "\<exists>strs. parse_strengths ''0.5MG;1MG;0.75MG'' 1 ex_row_single2 = Inr strs \<and> strs \<noteq> [] \<and>
      form_tuple ex_row_single2 =
        Inr (FormulationTuple
               (join ''; '' (replicate (length strs) (hd (split_semi ''NORETHINDRONE''))))
               (sub_semi_space ''TABLET;ORAL-21'') (join ''; '' (sort strs)))"
    by blast
  from pb fb l3 pp fp l2 pt ft ex l1 sg show ?thesis by blast
qed

subsection \<open>Form and route\<close>

lemma dropWhile_sep:
  "sep \<notin> set a \<Longrightarrow> dropWhile (\<lambda>c. c \<noteq> sep) (a @ sep # b) = sep # b"
  by (induction a) auto

lemma takeWhile_sep:
  "sep \<notin> set a \<Longrightarrow> takeWhile (\<lambda>c. c \<noteq> sep) (a @ sep # b) = a"
  by (induction a) auto

lemma dropWhile_no_sep:
  "sep \<notin> set s \<Longrightarrow> dropWhile (\<lambda>c. c \<noteq> sep) s = []"
  by (induction s) auto

lemma split1_found:
  "sep \<notin> set a \<Longrightarrow> split1 sep (a @ sep # b) = [a, b]"
  by (simp add: split1_def dropWhile_sep takeWhile_sep)

lemma split1_none:
  "sep \<notin> set s \<Longrightarrow> split1 sep s = [s]"
  by (simp add: split1_def dropWhile_no_sep)

text \<open>
  C7, as the code has it. Let either text be a form, a semicolon and a route, the form
  without a semicolon. If \<^verbatim>\<open>INJECTION\<close> is among the route words of the Orange Book
  side and among the route words or the form words of the NDC side, the result is true;
  so it is if \<^verbatim>\<open>INHALATION\<close> is among the route words of the Orange Book side and the
  form words of the NDC side; otherwise the result is true exactly when the two sets of
  route words meet and the two sets of form words meet. The words of the NDC route
  together with the words of the Orange Book form decide nothing. A text without a
  semicolon raises \<^verbatim>\<open>ValueError\<close>.
\<close>

theorem equivalent_form_cases:
  assumes ob: "CHR '';'' \<notin> set ob_form" and ndc: "CHR '';'' \<notin> set ndc_form"
  shows "(''INJECTION'' \<in> form_route_words ob_route \<and>
            (''INJECTION'' \<in> form_route_words ndc_route \<or>
             ''INJECTION'' \<in> form_route_words ndc_form) \<longrightarrow>
          equivalent_form (ob_form @ CHR '';'' # ob_route) (ndc_form @ CHR '';'' # ndc_route) =
            Inr True) \<and>
         (''INHALATION'' \<in> form_route_words ob_route \<and>
            ''INHALATION'' \<in> form_route_words ndc_form \<longrightarrow>
          equivalent_form (ob_form @ CHR '';'' # ob_route) (ndc_form @ CHR '';'' # ndc_route) =
            Inr True) \<and>
         (\<not> (''INJECTION'' \<in> form_route_words ob_route \<and>
              (''INJECTION'' \<in> form_route_words ndc_route \<or>
               ''INJECTION'' \<in> form_route_words ndc_form)) \<and>
          \<not> (''INHALATION'' \<in> form_route_words ob_route \<and>
              ''INHALATION'' \<in> form_route_words ndc_form) \<longrightarrow>
          equivalent_form (ob_form @ CHR '';'' # ob_route) (ndc_form @ CHR '';'' # ndc_route) =
            Inr (form_route_words ob_route \<inter> form_route_words ndc_route \<noteq> {} \<and>
                 form_route_words ob_form \<inter> form_route_words ndc_form \<noteq> {})) \<and>
         (\<forall>s t. CHR '';'' \<notin> set s \<longrightarrow> equivalent_form s t = Inl ValueError) \<and>
         (\<forall>t. CHR '';'' \<notin> set t \<longrightarrow>
            equivalent_form (ob_form @ CHR '';'' # ob_route) t = Inl ValueError)"
proof -
  have e: "equivalent_form (ob_form @ CHR '';'' # ob_route) (ndc_form @ CHR '';'' # ndc_route) =
      Inr (if ''INJECTION'' \<in> form_route_words ob_route \<and>
              ''INJECTION'' \<in> form_route_words ndc_route then True
           else if ''INJECTION'' \<in> form_route_words ob_route \<and>
              ''INJECTION'' \<in> form_route_words ndc_form then True
           else if ''INHALATION'' \<in> form_route_words ob_route \<and>
              ''INHALATION'' \<in> form_route_words ndc_form then True
           else if form_route_words ob_route \<inter> form_route_words ndc_route = {} then False
           else if form_route_words ob_form \<inter> form_route_words ndc_form = {} then False
           else True)"
    by (simp add: equivalent_form_def split1_found[OF ob] split1_found[OF ndc])
  have n1: "\<And>s t. CHR '';'' \<notin> set s \<Longrightarrow> equivalent_form s t = Inl ValueError"
    by (simp add: equivalent_form_def split1_none)
  have n2: "\<And>t. CHR '';'' \<notin> set t \<Longrightarrow>
      equivalent_form (ob_form @ CHR '';'' # ob_route) t = Inl ValueError"
    by (simp add: equivalent_form_def split1_found[OF ob] split1_none)
  show ?thesis
  proof (intro conjI)
    show "''INJECTION'' \<in> form_route_words ob_route \<and>
            (''INJECTION'' \<in> form_route_words ndc_route \<or>
             ''INJECTION'' \<in> form_route_words ndc_form) \<longrightarrow>
          equivalent_form (ob_form @ CHR '';'' # ob_route) (ndc_form @ CHR '';'' # ndc_route) =
            Inr True"
      unfolding e by simp
    show "''INHALATION'' \<in> form_route_words ob_route \<and>
            ''INHALATION'' \<in> form_route_words ndc_form \<longrightarrow>
          equivalent_form (ob_form @ CHR '';'' # ob_route) (ndc_form @ CHR '';'' # ndc_route) =
            Inr True"
      unfolding e by simp
    show "\<not> (''INJECTION'' \<in> form_route_words ob_route \<and>
              (''INJECTION'' \<in> form_route_words ndc_route \<or>
               ''INJECTION'' \<in> form_route_words ndc_form)) \<and>
          \<not> (''INHALATION'' \<in> form_route_words ob_route \<and>
              ''INHALATION'' \<in> form_route_words ndc_form) \<longrightarrow>
          equivalent_form (ob_form @ CHR '';'' # ob_route) (ndc_form @ CHR '';'' # ndc_route) =
            Inr (form_route_words ob_route \<inter> form_route_words ndc_route \<noteq> {} \<and>
                 form_route_words ob_form \<inter> form_route_words ndc_form \<noteq> {})"
      unfolding e by auto
    show "\<forall>s t. CHR '';'' \<notin> set s \<longrightarrow> equivalent_form s t = Inl ValueError"
      using n1 by blast
    show "\<forall>t. CHR '';'' \<notin> set t \<longrightarrow>
            equivalent_form (ob_form @ CHR '';'' # ob_route) t = Inl ValueError"
      using n2 by blast
  qed
qed

text \<open>
  The claim as stated fails when \<^verbatim>\<open>INJECTION\<close> is a route word of the NDC side and a
  form word of the Orange Book side only: no special case applies, the routes do not
  meet, and the result is false.
\<close>

theorem equivalent_form_counterexample:
  "''INJECTION'' \<in> form_route_words ''INTRAVENOUS'' \<and>
   ''INJECTION'' \<in> form_route_words ''INJECTABLE'' \<and>
   equivalent_form ''INJECTABLE;SUBCUTANEOUS'' ''SOLUTION;INTRAVENOUS'' = Inr False"
  by code_simp

theorem equivalent_form_cases_witness:
  "equivalent_form ''INJECTABLE;IV (INFUSION), SUBCUTANEOUS''
     ''INJECTION, SOLUTION;INTRAVENOUS; SUBCUTANEOUS'' = Inr True \<and>
   equivalent_form ''AEROSOL, METERED;INHALATION'' ''INHALANT;RESPIRATORY (INHALATION)'' = Inr True \<and>
   equivalent_form ''TABLET;ORAL'' ''CAPSULE;ORAL'' = Inr True \<and>
   equivalent_form ''TABLET'' ''CAPSULE;ORAL'' = Inl ValueError \<and>
   equivalent_form ''TABLET;ORAL'' ''CAPSULE'' = Inl ValueError"
proof -
  have s1: "CHR '';'' \<notin> set ''INJECTABLE''" "CHR '';'' \<notin> set ''INJECTION, SOLUTION''" by simp_all
  have h1: "''INJECTION'' \<in> form_route_words ''IV (INFUSION), SUBCUTANEOUS'' \<and>
      (''INJECTION'' \<in> form_route_words ''INTRAVENOUS; SUBCUTANEOUS'' \<or>
       ''INJECTION'' \<in> form_route_words ''INJECTION, SOLUTION'')"
    by code_simp
  from equivalent_form_cases[OF s1, of "''IV (INFUSION), SUBCUTANEOUS''" "''INTRAVENOUS; SUBCUTANEOUS''"] h1
  have c1: "equivalent_form ''INJECTABLE;IV (INFUSION), SUBCUTANEOUS''
     ''INJECTION, SOLUTION;INTRAVENOUS; SUBCUTANEOUS'' = Inr True"
    by simp
  have s2: "CHR '';'' \<notin> set ''AEROSOL, METERED''" "CHR '';'' \<notin> set ''INHALANT''" by simp_all
  have h2: "''INHALATION'' \<in> form_route_words ''INHALATION'' \<and>
      ''INHALATION'' \<in> form_route_words ''INHALANT''"
    by code_simp
  from equivalent_form_cases[OF s2, of "''INHALATION''" "''RESPIRATORY (INHALATION)''"] h2
  have c2: "equivalent_form ''AEROSOL, METERED;INHALATION'' ''INHALANT;RESPIRATORY (INHALATION)'' =
      Inr True"
    by simp
  have s3: "CHR '';'' \<notin> set ''TABLET''" "CHR '';'' \<notin> set ''CAPSULE''" by simp_all
  have h3: "\<not> (''INJECTION'' \<in> form_route_words ''ORAL'' \<and>
              (''INJECTION'' \<in> form_route_words ''ORAL'' \<or>
               ''INJECTION'' \<in> form_route_words ''CAPSULE'')) \<and>
          \<not> (''INHALATION'' \<in> form_route_words ''ORAL'' \<and>
              ''INHALATION'' \<in> form_route_words ''CAPSULE'')"
    by code_simp
  have v3: "form_route_words ''ORAL'' \<inter> form_route_words ''ORAL'' \<noteq> {} \<and>
      form_route_words ''TABLET'' \<inter> form_route_words ''CAPSULE'' \<noteq> {}"
    by code_simp
  from equivalent_form_cases[OF s3, of "''ORAL''" "''ORAL''"] h3 v3
  have c3: "equivalent_form ''TABLET;ORAL'' ''CAPSULE;ORAL'' = Inr True"
    by simp
  from equivalent_form_cases[OF s3, of "''ORAL''" "''ORAL''"] s3
  have c4: "equivalent_form ''TABLET'' ''CAPSULE;ORAL'' = Inl ValueError"
    by blast
  have a5: "''TABLET'' @ CHR '';'' # ''ORAL'' = ''TABLET;ORAL''" by simp
  from equivalent_form_cases[OF s3, of "''ORAL''" "''ORAL''"]
  have "\<forall>t. CHR '';'' \<notin> set t \<longrightarrow>
      equivalent_form (''TABLET'' @ CHR '';'' # ''ORAL'') t = Inl ValueError"
    by (rule conjunct2[THEN conjunct2, THEN conjunct2, THEN conjunct2])
  then have c5: "equivalent_form ''TABLET;ORAL'' ''CAPSULE'' = Inl ValueError"
    using s3(2) unfolding a5 by blast
  from c1 c2 c3 c4 c5 show ?thesis by blast
qed

subsection \<open>Ingredients\<close>

lemma split_char_nonempty: "split_char sep s \<noteq> []"
  by (induction s) (auto split: list.splits)

lemma join_split_char: "join [sep] (split_char sep s) = s"
proof (induction s)
  case Nil
  show ?case by simp
next
  case (Cons c cs)
  obtain w ws where sp: "split_char sep cs = w # ws"
    using split_char_nonempty[of sep cs] by (cases "split_char sep cs") auto
  show ?case
  proof (cases "c = sep")
    case True
    with Cons sp show ?thesis by simp
  next
    case False
    have "join [sep] ((c # w) # ws) = c # join [sep] (w # ws)" by (cases ws) simp_all
    with False Cons sp show ?thesis by simp
  qed
qed

lemma agree_Suc:
  assumes "i < length ws"
  shows "agree (Suc i) ws m \<longleftrightarrow> agree i ws m \<and> i < length m \<and> m ! i = ws ! i"
proof (cases "i < length m")
  case True
  with assms show ?thesis
    by (auto simp: agree_def take_Suc_conv_app_nth)
next
  case False
  then show ?thesis by (auto simp: agree_def)
qed

lemma agree_0: "agree 0 ws m"
  by (simp add: agree_def)

lemma match_loop_refines:
  assumes "i \<le> length ws"
  shows "match_loop ws [i..<length ws]
           (map (split_char CHR '' '') (filter (\<lambda>k. agree i ws (split_char CHR '' '' k)) keys)) =
         prefix_match ws [Suc i..<Suc (length ws)] keys"
  using assms
proof (induction "length ws - i" arbitrary: i)
  case 0
  then have "i = length ws" by simp
  then show ?case by simp
next
  case (Suc d)
  then have lt: "i < length ws" by simp
  let ?sp = "split_char CHR '' ''"
  let ?c = "filter (\<lambda>k. agree (Suc i) ws (?sp k)) keys"
  have f: "filter (\<lambda>m. length m > i \<and> m ! i = ws ! i)
             (map ?sp (filter (\<lambda>k. agree i ws (?sp k)) keys)) = map ?sp ?c"
    by (auto simp: filter_map comp_def agree_Suc[OF lt] intro: filter_cong)
  have u1: "[i..<length ws] = i # [Suc i..<length ws]" using lt by (simp add: upt_conv_Cons)
  have u2: "[Suc i..<Suc (length ws)] = Suc i # [Suc (Suc i)..<Suc (length ws)]"
    using lt by (simp add: upt_conv_Cons)
  have ih: "match_loop ws [Suc i..<length ws] (map ?sp ?c) =
      prefix_match ws [Suc (Suc i)..<Suc (length ws)] keys"
    using Suc.hyps(1)[of "Suc i"] Suc.hyps(2) lt by simp
  show ?case
  proof (cases ?c)
    case Nil
    then show ?thesis by (simp add: u1 u2 f del: upt_Suc)
  next
    case (Cons k ks)
    note c = this
    show ?thesis
    proof (cases ks)
      case Nil
      with c show ?thesis
        using join_split_char[of "CHR '' ''" k] by (simp add: u1 u2 f del: upt_Suc)
    next
      case (Cons k2 ks2)
      with c ih show ?thesis by (simp add: u1 u2 f del: upt_Suc)
    qed
  qed
qed

lemma match_ingredient_refines: "match_ingredient ing d = spec_match ing (map fst d)"
  using match_loop_refines[of 0 "split_char CHR '' '' ing" "map fst d"]
  by (simp add: match_ingredient_def spec_match_def agree_0 Let_def del: upt_Suc)

lemma dict_pop_Inr:
  "dict_pop k d = Inr (v, d1) \<Longrightarrow> k \<in> set (map fst d) \<and> map fst d1 = filter (\<lambda>x. x \<noteq> k) (map fst d)"
proof -
  assume a: "dict_pop k d = Inr (v, d1)"
  then have m: "map_of d k = Some v" and d1: "d1 = filter (\<lambda>(k', v'). k' \<noteq> k) d"
    by (auto simp: dict_pop_def split: option.splits)
  from m have "k \<in> set (map fst d)" by (metis map_of_eq_None_iff option.distinct(1) set_map)
  moreover have "map fst d1 = filter (\<lambda>x. x \<noteq> k) (map fst d)"
    unfolding d1 by (induction d) auto
  ultimately show ?thesis by simp
qed

lemma composition_loop_step:
  assumes "composition_loop eqs d ((ing, s, u) # rest) = Inr True"
  shows "\<exists>m v d1. match_ingredient ing d = Some m \<and> dict_pop m d = Inr (v, d1) \<and>
           composition_loop eqs d1 rest = Inr True"
proof (cases "match_ingredient ing d")
  case None
  with assms show ?thesis by simp
next
  case (Some m)
  note mi = this
  show ?thesis
  proof (cases "dict_pop m d")
    case (Inl e)
    with assms mi show ?thesis by (simp split: if_splits option.splits sum.splits)
  next
    case (Inr x)
    obtain v d1 where x: "x = (v, d1)" by (cases x)
    from Inr x have mo: "map_of d m = Some v" by (auto simp: dict_pop_def split: option.splits)
    have "composition_loop eqs d1 rest = Inr True"
    proof (cases "m = ''TAVABOROLE'' \<and> v = ''5%'' \<and> s = ''43.5''")
      case True
      with assms mi Inr x mo show ?thesis by simp
    next
      case False
      with assms mi Inr x mo show ?thesis
        by (cases "eqs v s u") (auto split: if_splits)
    qed
    with mi Inr x show ?thesis by simp
  qed
qed

lemma composition_loop_true:
  "composition_loop eqs d ndc = Inr True \<Longrightarrow>
     \<exists>ks. length ks = length ndc \<and> distinct ks \<and> set ks = set (map fst d) \<and>
          (\<forall>j < length ndc.
             spec_match (fst (ndc ! j)) (filter (\<lambda>k. k \<notin> set (take j ks)) (map fst d)) =
               Some (ks ! j))"
proof (induction ndc arbitrary: d)
  case Nil
  then have "d = []" by simp
  then show ?case by simp
next
  case (Cons x rest)
  obtain ing s u where x: "x = (ing, s, u)" by (cases x)
  from composition_loop_step[OF Cons.prems[unfolded x]] obtain m v d1 where
    mi: "match_ingredient ing d = Some m" and pop: "dict_pop m d = Inr (v, d1)"
    and r: "composition_loop eqs d1 rest = Inr True" by blast
  from dict_pop_Inr[OF pop] have mk: "m \<in> set (map fst d)"
    and k1: "map fst d1 = filter (\<lambda>x. x \<noteq> m) (map fst d)" by simp_all
  from Cons.IH[OF r] obtain ks where ks: "length ks = length rest" "distinct ks"
    "set ks = set (map fst d1)"
    "\<And>j. j < length rest \<Longrightarrow>
       spec_match (fst (rest ! j)) (filter (\<lambda>k. k \<notin> set (take j ks)) (map fst d1)) = Some (ks ! j)"
    by blast
  have nm: "m \<notin> set ks" using ks(3) k1 by simp
  have s: "set (m # ks) = set (map fst d)" using ks(3) k1 mk by auto
  have st: "\<forall>j < length (x # rest).
      spec_match (fst ((x # rest) ! j)) (filter (\<lambda>k. k \<notin> set (take j (m # ks))) (map fst d)) =
        Some ((m # ks) ! j)"
  proof (intro allI impI)
    fix j assume j: "j < length (x # rest)"
    show "spec_match (fst ((x # rest) ! j)) (filter (\<lambda>k. k \<notin> set (take j (m # ks))) (map fst d)) =
        Some ((m # ks) ! j)"
    proof (cases j)
      case 0
      with mi show ?thesis by (simp add: x match_ingredient_refines)
    next
      case (Suc j')
      with j have j': "j' < length rest" by simp
      have "filter (\<lambda>k. k \<notin> set (take j (m # ks))) (map fst d) =
            filter (\<lambda>k. k \<notin> set (take j' ks)) (map fst d1)"
        unfolding k1 Suc by (auto intro: filter_cong)
      with ks(4)[OF j'] Suc show ?thesis by simp
    qed
  qed
  show ?case
    using ks(1,2) nm s st by (intro exI[of _ "m # ks"]) simp
qed

text \<open>
  C8. \<open>match_ingredient\<close> returns what the matching by narrowing on ever longer
  prefixes of words gives (\<open>spec_match\<close>) on the ingredients of the pool. When an
  ingredient of the NDC side has no match, the comparison is false. When
  \<open>equivalent_composition\<close> returns true, whatever the comparison of strengths is,
  there is a list \<open>ks\<close> of ingredients of the Orange Book side, one for each
  ingredient of the NDC side in order: each is the match of its NDC ingredient in the
  pool without the ingredients matched before it, no ingredient is matched twice, and
  together they are the whole pool, so nothing is left over.
\<close>

theorem ingredient_matching:
  "match_ingredient ing d = spec_match ing (map fst d) \<and>
   (match_ingredient ing (dict_of ob_comps) = None \<longrightarrow>
      equivalent_composition eqs ob_comps ((ing, s, u) # rest) = Inr False) \<and>
   (equivalent_composition eqs ob_comps ndc_comps = Inr True \<longrightarrow>
      (\<exists>ks. length ks = length ndc_comps \<and> distinct ks \<and>
            set ks = set (map fst (dict_of ob_comps)) \<and>
            (\<forall>j < length ndc_comps.
               spec_match (fst (ndc_comps ! j))
                 (filter (\<lambda>k. k \<notin> set (take j ks)) (map fst (dict_of ob_comps))) =
               Some (ks ! j))))"
proof (intro conjI impI)
  show "match_ingredient ing d = spec_match ing (map fst d)"
    by (rule match_ingredient_refines)
next
  assume "match_ingredient ing (dict_of ob_comps) = None"
  then show "equivalent_composition eqs ob_comps ((ing, s, u) # rest) = Inr False"
    by (simp add: equivalent_composition_def)
next
  assume "equivalent_composition eqs ob_comps ndc_comps = Inr True"
  then have "composition_loop eqs (dict_of ob_comps) ndc_comps = Inr True"
    by (simp add: equivalent_composition_def)
  then show "\<exists>ks. length ks = length ndc_comps \<and> distinct ks \<and>
            set ks = set (map fst (dict_of ob_comps)) \<and>
            (\<forall>j < length ndc_comps.
               spec_match (fst (ndc_comps ! j))
                 (filter (\<lambda>k. k \<notin> set (take j ks)) (map fst (dict_of ob_comps))) =
               Some (ks ! j))"
    by (rule composition_loop_true)
qed

theorem ingredient_matching_witness:
  "match_ingredient ''A'' (dict_of ex_pool) = None \<and>
   spec_match ''A'' (map fst (dict_of ex_pool)) = None \<and>
   equivalent_composition (\<lambda>a b c. Inr True) ex_pool [(''A'', ''1'', ''mg'')] = Inr False \<and>
   equivalent_composition (\<lambda>a b c. Inr True) ex_ob_comps ex_ndc_comps = Inr True \<and>
   (\<exists>ks. length ks = length ex_ndc_comps \<and> distinct ks \<and>
         set ks = set (map fst (dict_of ex_ob_comps)) \<and>
         (\<forall>j < length ex_ndc_comps.
            spec_match (fst (ex_ndc_comps ! j))
              (filter (\<lambda>k. k \<notin> set (take j ks)) (map fst (dict_of ex_ob_comps))) =
            Some (ks ! j)))"
proof -
  have n: "match_ingredient ''A'' (dict_of ex_pool) = None" by code_simp
  have t: "equivalent_composition (\<lambda>a b c. Inr True) ex_ob_comps ex_ndc_comps = Inr True"
    by code_simp
  note a = ingredient_matching[where ing = "''A''" and d = "dict_of ex_pool"
      and ob_comps = ex_pool and eqs = "\<lambda>a b c. Inr True" and s = "''1''" and u = "''mg''"
      and rest = "[]" and ndc_comps = "[]"]
  note b = ingredient_matching[where ing = "''A''" and d = "dict_of ex_pool"
      and ob_comps = ex_ob_comps and eqs = "\<lambda>a b c. Inr True" and s = "''1''" and u = "''mg''"
      and rest = "[]" and ndc_comps = ex_ndc_comps]
  from a n have s: "spec_match ''A'' (map fst (dict_of ex_pool)) = None" by simp
  from a n have f: "equivalent_composition (\<lambda>a b c. Inr True) ex_pool [(''A'', ''1'', ''mg'')] =
      Inr False" by blast
  from b t have e: "\<exists>ks. length ks = length ex_ndc_comps \<and> distinct ks \<and>
         set ks = set (map fst (dict_of ex_ob_comps)) \<and>
         (\<forall>j < length ex_ndc_comps.
            spec_match (fst (ex_ndc_comps ! j))
              (filter (\<lambda>k. k \<notin> set (take j ks)) (map fst (dict_of ex_ob_comps))) =
            Some (ks ! j))" by blast
  from n s f t e show ?thesis by blast
qed

end
